theory Spec2Isabelle
  imports Main
begin

section \<open>Runes and strings (Go's unicode/utf8, unicode and strings packages)\<close>

text \<open>
  A Go string is a sequence of bytes: \<open>string\<close> (a list of 8-bit \<open>char\<close>s). A rune is a
  32-bit signed integer; the scanner's sentinel \<open>eof\<close> is \<open>-1\<close>. The library functions the
  scanner calls are written out here as the Go standard library defines them.
\<close>

type_synonym rune = int

definition eof :: rune where
  "eof = - 1"

definition RuneError :: rune where
  "RuneError = 0xFFFD"

abbreviation byte :: "char \<Rightarrow> nat" where
  "byte c \<equiv> of_char c"

text \<open>
  \<open>utf8.DecodeRuneInString\<close>: the first rune of \<open>s\<close> and its width in bytes;
  \<open>(RuneError, 0)\<close> on the empty string and \<open>(RuneError, 1)\<close> on an invalid encoding.
  The library looks the lead byte up in its table \<open>first\<close>, which gives the size of the
  encoding and the range the second byte must lie in; \<open>firstSize\<close>, \<open>acceptLo\<close> and
  \<open>acceptHi\<close> are that table for the lead bytes \<open>0xC2\<close> to \<open>0xF4\<close>, and every other
  byte from \<open>0x80\<close> on is an invalid lead byte.
\<close>

definition invalidLead :: "nat \<Rightarrow> bool" where
  "invalidLead s0 = (s0 < 0xC2 \<or> 0xF4 < s0)"

definition firstSize :: "nat \<Rightarrow> nat" where
  "firstSize s0 = (if s0 < 0xE0 then 2 else if s0 < 0xF0 then 3 else 4)"

definition acceptLo :: "nat \<Rightarrow> nat" where
  "acceptLo s0 = (if s0 = 0xE0 then 0xA0 else if s0 = 0xF0 then 0x90 else 0x80)"

definition acceptHi :: "nat \<Rightarrow> nat" where
  "acceptHi s0 = (if s0 = 0xED then 0x9F else if s0 = 0xF4 then 0x8F else 0xBF)"

text \<open>The continuation bytes, \<open>locb\<close> to \<open>hicb\<close>.\<close>

definition continuation :: "nat \<Rightarrow> bool" where
  "continuation b = (0x80 \<le> b \<and> b \<le> 0xBF)"

text \<open>
  The runes of two, three and four bytes: \<^verbatim>\<open>rune(s0&mask2)<<6 | rune(s1&maskx)\<close> and so
  on, the masks written as remainders and the shifts as products.
\<close>

definition rune2 :: "nat \<Rightarrow> nat \<Rightarrow> rune" where
  "rune2 s0 s1 = int ((s0 mod 32) * 64 + s1 mod 64)"

definition rune3 :: "nat \<Rightarrow> nat \<Rightarrow> nat \<Rightarrow> rune" where
  "rune3 s0 s1 s2 = int ((s0 mod 16) * 4096 + (s1 mod 64) * 64 + s2 mod 64)"

definition rune4 :: "nat \<Rightarrow> nat \<Rightarrow> nat \<Rightarrow> nat \<Rightarrow> rune" where
  "rune4 s0 s1 s2 s3 =
     int ((s0 mod 8) * 262144 + (s1 mod 64) * 4096 + (s2 mod 64) * 64 + s3 mod 64)"

definition DecodeRuneInString :: "string \<Rightarrow> rune \<times> nat" where
  "DecodeRuneInString s =
    (let n = length s in
     if n < 1 then (RuneError, 0) else
     let s0 = byte (s ! 0) in
     if s0 < 0x80 then (int s0, 1) else
     if invalidLead s0 then (RuneError, 1) else
     let sz = firstSize s0 in
     if n < sz then (RuneError, 1) else
     let s1 = byte (s ! 1) in
     if s1 < acceptLo s0 \<or> acceptHi s0 < s1 then (RuneError, 1) else
     if sz \<le> 2 then (rune2 s0 s1, 2) else
     let s2 = byte (s ! 2) in
     if \<not> continuation s2 then (RuneError, 1) else
     if sz \<le> 3 then (rune3 s0 s1 s2, 3) else
     let s3 = byte (s ! 3) in
     if \<not> continuation s3 then (RuneError, 1) else
     (rune4 s0 s1 s2 s3, 4))"

text \<open>\<open>utf8.RuneStart\<close>: the byte is not a continuation byte.\<close>

definition RuneStart :: "nat \<Rightarrow> bool" where
  "RuneStart b = (\<not> (0x80 \<le> b \<and> b < 0xC0))"

text \<open>
  The backward loop of \<open>utf8.DecodeLastRuneInString\<close>:
  \<^verbatim>\<open>for start--; start >= lim; start-- { if RuneStart(s[start]) { break } }\<close>,
  entered here after the first decrement.
\<close>

function backToRuneStart :: "string \<Rightarrow> int \<Rightarrow> int \<Rightarrow> int" where
  "backToRuneStart s start lim =
    (if lim \<le> start
     then (if RuneStart (byte (s ! nat start)) then start
           else backToRuneStart s (start - 1) lim)
     else start)"
  by pat_completeness auto
termination
  by (relation "measure (\<lambda>(s, start, lim). nat (start + 1 - lim))") auto

declare backToRuneStart.simps [simp del]

definition DecodeLastRuneInString :: "string \<Rightarrow> rune \<times> nat" where
  "DecodeLastRuneInString s =
    (let e = int (length s) in
     if e = 0 then (RuneError, 0) else
     let r = int (byte (s ! nat (e - 1))) in
     if r < 0x80 then (r, 1) else
     let lim = (if e - 4 < 0 then 0 else e - 4);
         start0 = backToRuneStart s (e - 2) lim;
         start = (if start0 < 0 then 0 else start0);
         (r, sz) = DecodeRuneInString (drop (nat start) s) in
     if start + int sz \<noteq> e then (RuneError, 1) else (r, sz))"

text \<open>
  \<^verbatim>\<open>for i, c := range s\<close>: the runes of \<open>s\<close>, each with the byte index at which it starts.
\<close>

function rangeFrom :: "nat \<Rightarrow> string \<Rightarrow> (nat \<times> rune) list" where
  "rangeFrom i s =
    (if s = [] then []
     else (i, fst (DecodeRuneInString s)) #
          rangeFrom (i + snd (DecodeRuneInString s)) (drop (snd (DecodeRuneInString s)) s))"
  by pat_completeness auto
termination
proof (relation "measure (\<lambda>(i, s). length s)")
  show "wf (measure (\<lambda>(i, s). length s))" by simp
next
  fix i :: nat and s :: string
  assume ne: "s \<noteq> []"
  then have "1 \<le> snd (DecodeRuneInString s)"
    by (simp add: DecodeRuneInString_def Let_def)
  then show "((i + snd (DecodeRuneInString s), drop (snd (DecodeRuneInString s)) s), (i, s))
      \<in> measure (\<lambda>(i, s). length s)"
    using ne by simp
qed

declare rangeFrom.simps [simp del]

definition rangeString :: "string \<Rightarrow> (nat \<times> rune) list" where
  "rangeString s = rangeFrom 0 s"

text \<open>
  \<open>strings.ContainsRune\<close>, that is \<open>strings.IndexRune(s, r) >= 0\<close>, by the cases of
  \<open>IndexRune\<close>: a rune below \<open>0x80\<close> is searched as a byte, \<open>RuneError\<close> among the
  decoded runes, no other invalid rune is ever found, and a valid rune is found where its
  encoding occurs, which is where decoding yields it. \<open>strings.Count\<close> is needed for the
  separator \<open>"\n"\<close> only.
\<close>

definition ValidRune :: "rune \<Rightarrow> bool" where
  "ValidRune r = ((0 \<le> r \<and> r < 0xD800) \<or> (0xDFFF < r \<and> r \<le> 0x10FFFF))"

definition ContainsRune :: "string \<Rightarrow> rune \<Rightarrow> bool" where
  "ContainsRune s r =
    (if 0 \<le> r \<and> r < 0x80 then r \<in> set (map (\<lambda>c. int (byte c)) s)
     else if r = RuneError then RuneError \<in> set (map snd (rangeString s))
     else if \<not> ValidRune r then False
     else r \<in> set (map snd (rangeString s)))"

definition CountNewlines :: "string \<Rightarrow> nat" where
  "CountNewlines s = length (filter (\<lambda>c. byte c = 0x0A) s)"

text \<open>
  \<open>unicode.IsLetter\<close>, \<open>unicode.IsDigit\<close> and \<open>unicode.IsSpace\<close>. For runes up to
  U+00FF the library decides by its Latin-1 property table, written out here. Above that
  it searches the Unicode range tables, which are data of the Go distribution: they are
  the parameter \<open>U\<close> of everything that classifies a rune. \<open>IsSpace\<close> is only ever
  applied to a single byte by the scanner.
\<close>

record unicodeTables =
  letterTable :: "rune \<Rightarrow> bool"
  digitTable :: "rune \<Rightarrow> bool"

definition latin1Letter :: "rune \<Rightarrow> bool" where
  "latin1Letter r =
    ((0x41 \<le> r \<and> r \<le> 0x5A) \<or> (0x61 \<le> r \<and> r \<le> 0x7A) \<or> r = 0xAA \<or> r = 0xB5 \<or>
     r = 0xBA \<or> (0xC0 \<le> r \<and> r \<le> 0xD6) \<or> (0xD8 \<le> r \<and> r \<le> 0xF6) \<or>
     (0xF8 \<le> r \<and> r \<le> 0xFF))"

definition IsLetter :: "unicodeTables \<Rightarrow> rune \<Rightarrow> bool" where
  "IsLetter U r =
    (if 0 \<le> r \<and> r \<le> 0xFF then latin1Letter r else 0xFF < r \<and> letterTable U r)"

definition IsDigit :: "unicodeTables \<Rightarrow> rune \<Rightarrow> bool" where
  "IsDigit U r =
    (if r \<le> 0xFF then 0x30 \<le> r \<and> r \<le> 0x39 else digitTable U r)"

definition IsSpace :: "rune \<Rightarrow> bool" where
  "IsSpace r =
    (r = 0x09 \<or> r = 0x0A \<or> r = 0x0B \<or> r = 0x0C \<or> r = 0x0D \<or> r = 0x20 \<or>
     r = 0x85 \<or> r = 0xA0)"

text \<open>
  The tables that hold no rune: enough to run the scanner on text whose runes are all
  below U+0100, where the library never consults a range table.
\<close>

definition latin1Only :: unicodeTables where
  "latin1Only = \<lparr>letterTable = (\<lambda>r. False), digitTable = (\<lambda>r. False)\<rparr>"

section \<open>Items and the scanner state\<close>

datatype itemType =
    itemError
  | itemBlockCommentGroupBegin
  | itemBlockCommentGroupEnd
  | itemSimpleType
  | itemMethodBody
  | itemMethodArgs
  | itemTemplateArgs
  | itemDefaultValue
  | itemIdentifier
  | itemEOF
  | itemSymbol
  | itemOpenBrace
  | itemCloseBrace
  | itemSemicolon
  | itemColon
  | itemEquals
  | itemKeyword
  | itemNamespace
  | itemClass
  | itemConst
  | itemNoexcept
  | itemStruct
  | itemEnum
  | itemTemplate
  | itemPublic
  | itemProtected
  | itemPrivate
  | itemUsing

text \<open>
  The struct \<open>item\<close>. Its fields \<open>typ\<close>, \<open>pos\<close>, \<open>val\<close> and \<open>line\<close> carry the prefix
  \<open>item_\<close> here, since \<open>pos\<close> and \<open>line\<close> are fields of the lexer as well.
\<close>

record item =
  item_typ :: itemType
  item_pos :: nat
  item_val :: string
  item_line :: int

text \<open>
  The channel \<open>items\<close>: what has been sent on it, in order, and whether it has been
  closed. The receiver takes the items in the order they were sent.
\<close>

record 'a chan =
  sent :: "'a list"
  closed :: bool

text \<open>
  A \<open>stateFn\<close> is a function from the lexer to the next \<open>stateFn\<close>; the model names the
  state functions, \<open>nil\<close> is \<open>None\<close>, and \<open>step\<close> below applies a name to the lexer.
  \<open>lexStruct\<close>, \<open>lexClass\<close> and \<open>lexEnum\<close> are called by \<open>lexBlockFn\<close> but are not
  defined in the source file: they are names only.
\<close>

datatype stateFn =
    LexRootFn
  | LexNamespaceFn
  | LexBlockFn
  | LexLineCommentFn
  | LexEatLineFn
  | LexBlockCommentFn
  | LexSymbolFn
  | LexSpaceFn
  | LexStruct
  | LexClass
  | LexEnum

text \<open>
  The struct \<open>lexer\<close>. Positions are byte offsets into \<open>input\<close> and never negative;
  the line and depth counters are Go \<open>int\<close>s.
\<close>

record lexer =
  name :: string
  input :: string
  items :: "item chan"
  line :: int
  startLine :: int
  parenDepth :: int
  braceDepth :: int
  angleBracketDepth :: int
  pos :: nat
  start :: nat
  atEOF :: bool

text \<open>
  The slice expression \<open>s[a:b]\<close>. Go panics unless \<open>a \<le> b \<le> len(s)\<close>; the scanner
  slices with \<open>start\<close> and \<open>pos\<close> only.
\<close>

definition slice :: "string \<Rightarrow> nat \<Rightarrow> nat \<Rightarrow> string" where
  "slice s a b = take (b - a) (drop a s)"

text \<open>The channel send \<open>l.items <- it\<close>.\<close>

definition send :: "item \<Rightarrow> lexer \<Rightarrow> lexer" where
  "send it l = l\<lparr>items := (items l)\<lparr>sent := sent (items l) @ [it]\<rparr>\<rparr>"

section \<open>The methods of the lexer\<close>

text \<open>
  Each method takes the lexer and returns it updated, with the method's result if it has
  one. The method \<open>next\<close> is \<open>lexer_next\<close> and the method \<open>eof\<close> is \<open>lexer_eof\<close>
  (the constant \<open>eof\<close> is the rune).
\<close>

definition lexer_next :: "lexer \<Rightarrow> rune \<times> lexer" where
  "lexer_next l =
    (if length (input l) \<le> pos l then (eof, l\<lparr>atEOF := True\<rparr>)
     else
       let (r, w) = DecodeRuneInString (drop (pos l) (input l));
           l1 = l\<lparr>pos := pos l + w\<rparr>
       in (r, if r = 0x0A then l1\<lparr>line := line l1 + 1\<rparr> else l1))"

definition backup :: "lexer \<Rightarrow> lexer" where
  "backup l =
    (if \<not> atEOF l \<and> 0 < pos l then
       let (r, w) = DecodeLastRuneInString (take (pos l) (input l));
           l1 = l\<lparr>pos := pos l - w\<rparr>
       in (if r = 0x0A then l1\<lparr>line := line l1 - 1\<rparr> else l1)
     else l)"

definition peek :: "lexer \<Rightarrow> rune \<times> lexer" where
  "peek l = (let (r, l1) = lexer_next l in (r, backup l1))"

fun backupMultiple :: "nat \<Rightarrow> lexer \<Rightarrow> lexer" where
  "backupMultiple 0 lx = lx"
| "backupMultiple (Suc count) lx = backupMultiple count (backup lx)"

definition emit :: "itemType \<Rightarrow> lexer \<Rightarrow> lexer" where
  "emit t l =
    (send \<lparr>item_typ = t, item_pos = start l,
           item_val = slice (input l) (start l) (pos l), item_line = startLine l\<rparr> l)
      \<lparr>start := pos l, startLine := line l\<rparr>"

definition ignore :: "lexer \<Rightarrow> lexer" where
  "ignore l =
    (let l1 = l\<lparr>line := line l + int (CountNewlines (slice (input l) (start l) (pos l)))\<rparr>
     in l1\<lparr>start := pos l1, startLine := line l1\<rparr>)"

definition accept :: "string \<Rightarrow> lexer \<Rightarrow> bool \<times> lexer" where
  "accept valid l =
    (let (r, l1) = lexer_next l in
     if ContainsRune valid r then (True, l1) else (False, backup l1))"

definition isAlphaNumeric :: "unicodeTables \<Rightarrow> rune \<Rightarrow> bool" where
  "isAlphaNumeric U r = (r = 0x5F \<or> IsLetter U r \<or> IsDigit U r)"

definition acceptAlphaNumeric :: "unicodeTables \<Rightarrow> lexer \<Rightarrow> bool \<times> lexer" where
  "acceptAlphaNumeric U lx =
    (let (r, lx1) = lexer_next lx in
     if isAlphaNumeric U r then (True, lx1) else (False, backup lx1))"

text \<open>The loop \<^verbatim>\<open>for strings.ContainsRune(valid, l.next()) { }\<close> of \<open>acceptRun\<close>.\<close>

function acceptRun_loop :: "string \<Rightarrow> lexer \<Rightarrow> lexer" where
  "acceptRun_loop valid l =
    (if ContainsRune valid (fst (lexer_next l)) then acceptRun_loop valid (snd (lexer_next l))
     else snd (lexer_next l))"
  by pat_completeness auto
termination
proof (relation "measure (\<lambda>(valid, l). length (input l) - pos l)")
  show "wf (measure (\<lambda>(valid, l). length (input l) - pos l))" by simp
next
  fix valid :: string and l :: lexer
  assume c: "ContainsRune valid (fst (lexer_next l))"
  have "\<not> ContainsRune valid eof"
    by (simp add: ContainsRune_def eof_def RuneError_def ValidRune_def)
  then have "fst (lexer_next l) \<noteq> eof"
    using c by auto
  then have lt: "pos l < length (input l)"
    by (cases "pos l < length (input l)") (simp_all add: lexer_next_def)
  then have "1 \<le> snd (DecodeRuneInString (drop (pos l) (input l)))"
    by (simp add: DecodeRuneInString_def Let_def)
  then show "((valid, snd (lexer_next l)), (valid, l))
      \<in> measure (\<lambda>(valid, l). length (input l) - pos l)"
    using lt by (simp add: lexer_next_def Let_def split_beta)
qed

declare acceptRun_loop.simps [simp del]

definition acceptRun :: "string \<Rightarrow> lexer \<Rightarrow> lexer" where
  "acceptRun valid l = backup (acceptRun_loop valid l)"

definition acceptSpace :: "lexer \<Rightarrow> bool \<times> lexer" where
  "acceptSpace lx = accept [CHR '' '', CHR 0x09, CHR ''\<newline>''] lx"

definition acceptRune :: "rune \<Rightarrow> lexer \<Rightarrow> bool \<times> lexer" where
  "acceptRune expected l =
    (let (r, l1) = lexer_next l in
     if r = expected then (True, l1) else (False, backup l1))"

text \<open>
  The loop of \<open>acceptString\<close> over \<^verbatim>\<open>for i, c := range expectedString\<close>: on a mismatch
  it backs up \<open>i\<close> runes, \<open>i\<close> being the byte index of the rune \<open>c\<close>.
\<close>

fun acceptString_loop :: "(nat \<times> rune) list \<Rightarrow> lexer \<Rightarrow> bool \<times> lexer" where
  "acceptString_loop [] lx = (True, lx)"
| "acceptString_loop ((i, c) # ics) lx =
    (let (r, lx1) = lexer_next lx in
     if r \<noteq> c then (False, backupMultiple i lx1) else acceptString_loop ics lx1)"

definition acceptString :: "string \<Rightarrow> lexer \<Rightarrow> bool \<times> lexer" where
  "acceptString expectedString lx = acceptString_loop (rangeString expectedString) lx"

text \<open>The loop \<^verbatim>\<open>for isAlphaNumeric(lx.next()) { }\<close> of \<open>acceptIdentifier\<close>.\<close>

function acceptIdentifier_loop :: "unicodeTables \<Rightarrow> lexer \<Rightarrow> lexer" where
  "acceptIdentifier_loop U lx =
    (if isAlphaNumeric U (fst (lexer_next lx))
     then acceptIdentifier_loop U (snd (lexer_next lx))
     else snd (lexer_next lx))"
  by pat_completeness auto
termination
proof (relation "measure (\<lambda>(U, l). length (input l) - pos l)")
  show "wf (measure (\<lambda>(U :: unicodeTables, l). length (input l) - pos l))" by simp
next
  fix U :: unicodeTables and lx :: lexer
  assume c: "isAlphaNumeric U (fst (lexer_next lx))"
  have "\<not> isAlphaNumeric U eof"
    by (simp add: isAlphaNumeric_def IsLetter_def IsDigit_def eof_def)
  then have "fst (lexer_next lx) \<noteq> eof"
    using c by auto
  then have lt: "pos lx < length (input lx)"
    by (cases "pos lx < length (input lx)") (simp_all add: lexer_next_def)
  then have "1 \<le> snd (DecodeRuneInString (drop (pos lx) (input lx)))"
    by (simp add: DecodeRuneInString_def Let_def)
  then show "((U, snd (lexer_next lx)), (U, lx))
      \<in> measure (\<lambda>(U, l). length (input l) - pos l)"
    using lt by (simp add: lexer_next_def Let_def split_beta)
qed

declare acceptIdentifier_loop.simps [simp del]

definition acceptIdentifier :: "unicodeTables \<Rightarrow> lexer \<Rightarrow> bool \<times> lexer" where
  "acceptIdentifier U lx =
    (let (r, lx1) = lexer_next lx in
     if r \<noteq> 0x5F \<and> \<not> IsLetter U r then (False, backup lx1)
     else (True, backup (acceptIdentifier_loop U lx1)))"

definition lexer_eof :: "lexer \<Rightarrow> bool" where
  "lexer_eof lx = (length (input lx) \<le> pos lx)"

definition acceptKeyword :: "unicodeTables \<Rightarrow> string \<Rightarrow> lexer \<Rightarrow> bool \<times> lexer" where
  "acceptKeyword U keyword lx =
    (let start0 = pos lx;
         (ok, lx1) = acceptString keyword lx in
     if \<not> ok then (False, lx1)
     else if lexer_eof lx1 then (True, lx1)
     else
       let (alnum, lx2) = acceptAlphaNumeric U lx1 in
       if alnum then (False, backupMultiple (pos lx2 - start0) lx2)
       else (True, lx2))"

text \<open>
  \<open>errorf\<close> sends an error item and returns \<open>nil\<close>. Every call in the source passes a
  format without verbs and no arguments, so the formatted text is the format itself.
\<close>

definition errorf :: "lexer \<Rightarrow> string \<Rightarrow> stateFn option \<times> lexer" where
  "errorf l format =
    (None, send \<lparr>item_typ = itemError, item_pos = start l, item_val = format,
                 item_line = startLine l\<rparr> l)"

text \<open>
  The function \<open>lex\<close> of the source creates the scanner for an input; \<open>run\<close> below is the
  goroutine it starts. It is \<open>lexNew\<close> here, and the receiver \<open>lex\<close> of the methods is
  \<open>lx\<close>: \<open>lex\<close> is the lexicographic order on lists in HOL.
\<close>

definition lexNew :: "string \<Rightarrow> string \<Rightarrow> lexer" where
  "lexNew nm inp =
    \<lparr>name = nm, input = inp, items = \<lparr>sent = [], closed = False\<rparr>, line = 1, startLine = 1,
     parenDepth = 0, braceDepth = 0, angleBracketDepth = 0, pos = 0, start = 0,
     atEOF = False\<rparr>"

section \<open>The state functions\<close>

text \<open>
  A state function returns the next state and the lexer. Where the source ends a state
  function with a call, \<^verbatim>\<open>return lexBlockFn(lex)\<close>, the model returns the callee as the
  next state and the loop of \<open>run\<close> applies it at once: the items sent and the lexer are
  those of the call.
\<close>

definition lexLineCommentFn :: "lexer \<Rightarrow> stateFn option \<times> lexer" where
  "lexLineCommentFn lx =
    (if lexer_eof lx then (None, lx)
     else
       let (ok, lx1) = accept ''\<newline>'' lx in
       if ok then (Some LexRootFn, lx1) else (Some LexLineCommentFn, lx1))"

definition lexEatLineFn :: "lexer \<Rightarrow> stateFn option \<times> lexer" where
  "lexEatLineFn lx =
    (if lexer_eof lx then (None, lx)
     else
       let (ok, lx1) = accept ''\<newline>'' lx in
       if ok then (Some LexRootFn, lx1) else (Some LexEatLineFn, lx1))"

definition lexBlockCommentFn :: "lexer \<Rightarrow> stateFn option \<times> lexer" where
  "lexBlockCommentFn lx =
    (if lexer_eof lx then errorf lx ''Unexpected EOF''
     else
       let (ok, lx1) = accept ''*/'' lx in
       if ok then (Some LexRootFn, lx1) else (Some LexBlockCommentFn, lx1))"

definition lexRootFn :: "unicodeTables \<Rightarrow> lexer \<Rightarrow> stateFn option \<times> lexer" where
  "lexRootFn U lx =
    (if lexer_eof lx then (None, lx)
     else
       let (space, lx1) = acceptSpace lx in
       if space then (Some LexRootFn, acceptRun [CHR '' '', CHR ''\<newline>'', CHR 0x09] lx1)
       else
         let (block, lx2) = acceptString ''/*'' lx1 in
         if block then (Some LexBlockCommentFn, lx2)
         else
           let (lcomment, lx3) = acceptString ''//'' lx2 in
           if lcomment then (Some LexLineCommentFn, lx3)
           else
             let (hash, lx4) = acceptRune 0x23 lx3 in
             if hash then (Some LexEatLineFn, lx4)
             else
               let (ns, lx5) = acceptKeyword U ''namespace'' lx4 in
               if ns then (Some LexNamespaceFn, emit itemNamespace lx5)
               else errorf lx5 ''Expected namespace'')"

text \<open>Upon entry the lexer is just past the \<open>namespace\<close> keyword.\<close>

definition lexNamespaceFn :: "unicodeTables \<Rightarrow> lexer \<Rightarrow> stateFn option \<times> lexer" where
  "lexNamespaceFn U lx =
    (let (brace, lx1) = acceptRune 0x7B lx in
     if brace then (Some LexBlockFn, emit itemOpenBrace lx1)
     else
       let (ident, lx2) = acceptIdentifier U lx1 in
       if ident then
         (let lx3 = emit itemIdentifier lx2;
              (brace, lx4) = acceptRune 0x7B lx3 in
          if brace then (Some LexBlockFn, emit itemOpenBrace lx4)
          else errorf lx4 ''Badly formed namespace'')
       else errorf lx2 ''Badly formed namespace'')"

definition lexBlockFn :: "unicodeTables \<Rightarrow> lexer \<Rightarrow> stateFn option \<times> lexer" where
  "lexBlockFn U lx =
    (let (ns, lx1) = acceptKeyword U ''namespace'' lx in
     if ns then (Some LexNamespaceFn, emit itemNamespace lx1)
     else
       let (struct, lx2) = acceptKeyword U ''struct'' lx1 in
       if struct then
         (let lx3 = emit itemStruct lx2;
              (ident, lx4) = acceptIdentifier U lx3;
              lx5 = (if ident then emit itemIdentifier lx4 else lx4);
              (brace, lx6) = acceptRune 0x7B lx5 in
          if \<not> brace then errorf lx6 ''Badly formed struct''
          else (Some LexStruct, emit itemOpenBrace lx6))
       else
         let (cls, lx7) = acceptKeyword U ''class'' lx2 in
         if cls then
           (let lx8 = emit itemClass lx7;
                (ident, lx9) = acceptIdentifier U lx8 in
            if \<not> ident then errorf lx9 ''Anonymous classes are illegal.''
            else
              let lx10 = emit itemIdentifier lx9;
                  (brace, lx11) = acceptRune 0x7B lx10 in
              if \<not> brace then errorf lx11 ''Badly formed class''
              else (Some LexClass, emit itemOpenBrace lx11))
         else
           let (enum, lx12) = acceptKeyword U ''enum'' lx7 in
           if enum then
             (let lx13 = emit itemEnum lx12;
                  (ident, lx14) = acceptIdentifier U lx13 in
              if \<not> ident then errorf lx14 ''Anonymous enums are illegal.''
              else
                let lx15 = emit itemIdentifier lx14;
                    (brace, lx16) = acceptRune 0x7B lx15 in
                if \<not> brace then errorf lx16 ''Badly formed enum''
                else (Some LexEnum, emit itemOpenBrace lx16))
           else errorf lx12 ''Expected namespace, struct, class, or enum.'')"

text \<open>
  \<open>lexSymbolFn\<close> and \<open>lexSpaceFn\<close> read the byte \<open>lex.input[lex.pos]\<close> by index: Go
  panics when the index is out of range.
\<close>

datatype panic = IndexOutOfRange

definition lexSymbolFn :: "lexer \<Rightarrow> panic + (stateFn option \<times> lexer)" where
  "lexSymbolFn lx =
    (if length (input lx) \<le> pos lx then Inl IndexOutOfRange
     else
       let c = byte (input lx ! pos lx) in
       if c = 0x7B then Inr (Some LexRootFn, emit itemOpenBrace (lx\<lparr>pos := pos lx + 1\<rparr>))
       else if c = 0x7D then Inr (Some LexRootFn, emit itemCloseBrace (lx\<lparr>pos := pos lx + 1\<rparr>))
       else if c = 0x3B then Inr (Some LexRootFn, emit itemSemicolon (lx\<lparr>pos := pos lx + 1\<rparr>))
       else if c = 0x3A then Inr (Some LexRootFn, emit itemColon (lx\<lparr>pos := pos lx + 1\<rparr>))
       else if c = 0x3D then Inr (Some LexRootFn, emit itemEquals (lx\<lparr>pos := pos lx + 1\<rparr>))
       else Inr (errorf lx ''Unexpected input''))"

text \<open>
  The loop \<^verbatim>\<open>for unicode.IsSpace(rune(lex.input[lex.pos])) && !lex.eof() { lex.pos++ }\<close>:
  the condition reads the byte before it tests \<open>eof\<close>.
\<close>

function lexSpaceFn_loop :: "lexer \<Rightarrow> panic + lexer" where
  "lexSpaceFn_loop lx =
    (if length (input lx) \<le> pos lx then Inl IndexOutOfRange
     else if IsSpace (int (byte (input lx ! pos lx))) \<and> \<not> lexer_eof lx
          then lexSpaceFn_loop (lx\<lparr>pos := pos lx + 1\<rparr>)
          else Inr lx)"
  by pat_completeness auto
termination
  by (relation "measure (\<lambda>lx. length (input lx) - pos lx)") auto

declare lexSpaceFn_loop.simps [simp del]

definition lexSpaceFn :: "lexer \<Rightarrow> panic + (stateFn option \<times> lexer)" where
  "lexSpaceFn lx =
    (case lexSpaceFn_loop lx of
       Inl p \<Rightarrow> Inl p
     | Inr lx1 \<Rightarrow> Inr (Some LexRootFn, ignore lx1))"

section \<open>The state machine\<close>

text \<open>
  \<open>step\<close> applies a state function to the lexer; it is \<open>None\<close> for \<open>lexStruct\<close>,
  \<open>lexClass\<close> and \<open>lexEnum\<close>, whose bodies are not in the source.
\<close>

fun step :: "unicodeTables \<Rightarrow> stateFn \<Rightarrow> lexer \<Rightarrow> (panic + (stateFn option \<times> lexer)) option" where
  "step U LexRootFn l = Some (Inr (lexRootFn U l))"
| "step U LexNamespaceFn l = Some (Inr (lexNamespaceFn U l))"
| "step U LexBlockFn l = Some (Inr (lexBlockFn U l))"
| "step U LexLineCommentFn l = Some (Inr (lexLineCommentFn l))"
| "step U LexEatLineFn l = Some (Inr (lexEatLineFn l))"
| "step U LexBlockCommentFn l = Some (Inr (lexBlockCommentFn l))"
| "step U LexSymbolFn l = Some (lexSymbolFn l)"
| "step U LexSpaceFn l = Some (lexSpaceFn l)"
| "step U LexStruct l = None"
| "step U LexClass l = None"
| "step U LexEnum l = None"

text \<open>
  The loop of \<open>run\<close>, \<^verbatim>\<open>for state := lexRootFn; state != nil; { state = state(l) }\<close>,
  and the \<open>close(l.items)\<close> after it. The loop need not end, so it runs on fuel: \<open>None\<close>
  is a loop that is still running when the fuel is spent. It ends in one of three ways:
  the state became \<open>nil\<close> and the channel was closed; a state function panicked; or
  control reached one of the three state functions that are not in the source.
\<close>

datatype outcome = Closed lexer | Panicked panic lexer | Enters stateFn lexer

definition close :: "lexer \<Rightarrow> lexer" where
  "close l = l\<lparr>items := (items l)\<lparr>closed := True\<rparr>\<rparr>"

fun runLoop :: "unicodeTables \<Rightarrow> nat \<Rightarrow> stateFn \<Rightarrow> lexer \<Rightarrow> outcome option" where
  "runLoop U 0 state l = None"
| "runLoop U (Suc fuel) state l =
    (case step U state l of
       None \<Rightarrow> Some (Enters state l)
     | Some (Inl p) \<Rightarrow> Some (Panicked p l)
     | Some (Inr (None, l1)) \<Rightarrow> Some (Closed (close l1))
     | Some (Inr (Some state1, l1)) \<Rightarrow> runLoop U fuel state1 l1)"

definition run :: "unicodeTables \<Rightarrow> nat \<Rightarrow> lexer \<Rightarrow> outcome option" where
  "run U fuel l = runLoop U fuel LexRootFn l"

text \<open>The lexer an outcome holds, and the items delivered on its channel.\<close>

fun lexerOf :: "outcome \<Rightarrow> lexer" where
  "lexerOf (Closed l) = l"
| "lexerOf (Panicked p l) = l"
| "lexerOf (Enters state l) = l"

definition delivered :: "outcome \<Rightarrow> item list" where
  "delivered out = sent (items (lexerOf out))"

section \<open>The predicates of the theorems\<close>

text \<open>The rune boundaries of a string: the positions that decoding from byte 0 reaches.\<close>

inductive runeBoundary :: "string \<Rightarrow> nat \<Rightarrow> bool" for s :: string where
  boundary_start: "runeBoundary s 0"
| boundary_step:
    "runeBoundary s p \<Longrightarrow> p < length s \<Longrightarrow>
       runeBoundary s (p + snd (DecodeRuneInString (drop p s)))"

text \<open>
  The same set of positions, computed: walking from \<open>q\<close> by whole runes arrives at
  \<open>p\<close>. It is equal to \<open>runeBoundary\<close> (section on rune boundaries below) and is
  the equation by which \<open>runeBoundary\<close> is evaluated.
\<close>

function reaches :: "string \<Rightarrow> nat \<Rightarrow> nat \<Rightarrow> bool" where
  "reaches s q p =
    (if q = p then True
     else if q < p \<and> q < length s
          then reaches s (q + snd (DecodeRuneInString (drop q s))) p
          else False)"
  by pat_completeness auto
termination
proof (relation "measure (\<lambda>(s, q, p). p - q)")
  show "wf (measure (\<lambda>(s, q, p). p - q))" by simp
next
  fix s :: string and q p :: nat
  assume "q \<noteq> p" and a: "q < p \<and> q < length s"
  then have "1 \<le> snd (DecodeRuneInString (drop q s))"
    by (simp add: DecodeRuneInString_def Let_def)
  then show "((s, q + snd (DecodeRuneInString (drop q s)), p), (s, q, p))
      \<in> measure (\<lambda>(s, q, p). p - q)"
    using a by (simp only: in_measure prod.case) arith
qed

declare reaches.simps [simp del]

text \<open>
  The states the scanner is in: \<open>atEOF\<close> is set only at the end of the input (only
  \<open>next\<close> sets it, there), and \<open>pos\<close> is a rune boundary (it starts at 0 and moves by
  whole runes). \<open>lex\<close> creates such a state, and every method and every state function
  keeps it (last section). At a position inside a rune the two decoders of the library
  need not agree, and \<open>backup\<close> may step back over more than \<open>next\<close> has read.
\<close>

definition wellPlaced :: "lexer \<Rightarrow> bool" where
  "wellPlaced l =
    ((atEOF l \<longrightarrow> length (input l) \<le> pos l) \<and> runeBoundary (input l) (pos l))"

text \<open>
  \<open>tokenItem\<close>: an item as \<open>emit\<close> sends it in the state functions, neither an error
  nor an end-of-input item, its text the slice of the input at its position.
  \<open>grown l l1\<close>: from \<open>l\<close> to \<open>l1\<close> the input is the same and the channel has received
  token items only. \<open>stepOK\<close>: what one state function does, token items and then either
  a next state or, with \<open>nil\<close>, possibly one error item sent by \<open>errorf\<close>.
\<close>

definition sliceOK :: "string \<Rightarrow> item \<Rightarrow> bool" where
  "sliceOK inp it =
    (slice inp (item_pos it) (item_pos it + length (item_val it)) = item_val it)"

definition tokenItem :: "string \<Rightarrow> item \<Rightarrow> bool" where
  "tokenItem inp it =
    (item_typ it \<noteq> itemError \<and> item_typ it \<noteq> itemEOF \<and> sliceOK inp it)"

definition grown :: "lexer \<Rightarrow> lexer \<Rightarrow> bool" where
  "grown l l1 =
    (input l1 = input l \<and>
     take (length (sent (items l))) (sent (items l1)) = sent (items l) \<and>
     list_all (tokenItem (input l)) (drop (length (sent (items l))) (sent (items l1))))"

definition stepOK :: "lexer \<Rightarrow> stateFn option \<times> lexer \<Rightarrow> bool" where
  "stepOK l res =
    (grown l (snd res) \<or>
     (fst res = None \<and> (\<exists>l1 msg. grown l l1 \<and> snd res = snd (errorf l1 msg))))"

text \<open>What a finished run has delivered.\<close>

definition outcomeOK :: "lexer \<Rightarrow> outcome \<Rightarrow> bool" where
  "outcomeOK l out =
    (grown l (lexerOf out) \<or>
     (\<exists>l1 msg. grown l l1 \<and> out = Closed (close (snd (errorf l1 msg)))))"

section \<open>The width and the value of a decoded rune\<close>

lemma firstSize_range: "2 \<le> firstSize s0 \<and> firstSize s0 \<le> 4"
  by (simp add: firstSize_def)

lemma DecodeRuneInString_width_pos: "s \<noteq> [] \<Longrightarrow> 1 \<le> snd (DecodeRuneInString s)"
  by (simp add: DecodeRuneInString_def Let_def)

lemma DecodeRuneInString_width_le: "snd (DecodeRuneInString s) \<le> length s"
  using firstSize_range [of "byte (s ! 0)"]
  by (simp add: DecodeRuneInString_def Let_def Suc_le_eq)

lemma DecodeRuneInString_nonneg: "0 \<le> fst (DecodeRuneInString s)"
  by (simp add: DecodeRuneInString_def Let_def RuneError_def rune2_def rune3_def rune4_def)

section \<open>The decoder forwards and backwards\<close>

text \<open>
  What \<open>backup\<close> needs of the library: decoding the last rune of the text up to the end
  of a rune gives that rune back. This holds where the rune starts on a rune boundary of
  the input, a position that decoding from byte 0 runs through.
\<close>

lemma decode_ascii:
  "s \<noteq> [] \<Longrightarrow> byte (s ! 0) < 0x80 \<Longrightarrow> DecodeRuneInString s = (int (byte (s ! 0)), 1)"
  by (simp add: DecodeRuneInString_def Let_def)

lemma decode_width_le4: "snd (DecodeRuneInString s) \<le> 4"
  by (simp add: DecodeRuneInString_def Let_def)

lemma decode_nonascii_1:
  "s \<noteq> [] \<Longrightarrow> 0x80 \<le> byte (s ! 0) \<Longrightarrow> snd (DecodeRuneInString s) \<le> 1 \<Longrightarrow>
     DecodeRuneInString s = (RuneError, 1)"
  by (simp add: DecodeRuneInString_def Let_def split: if_splits)

lemma accept_continuation:
  "\<not> (s1 < acceptLo s0 \<or> acceptHi s0 < s1) \<Longrightarrow> continuation s1"
  by (simp add: acceptLo_def acceptHi_def continuation_def split: if_splits)

lemma decode_multi:
  assumes "2 \<le> snd (DecodeRuneInString s)"
  shows "snd (DecodeRuneInString s) \<le> length s"
    and "\<not> byte (s ! 0) < 0x80"
    and "\<not> invalidLead (byte (s ! 0))"
    and "continuation (byte (s ! 1))"
    and "3 \<le> snd (DecodeRuneInString s) \<Longrightarrow> continuation (byte (s ! 2))"
    and "4 \<le> snd (DecodeRuneInString s) \<Longrightarrow> continuation (byte (s ! 3))"
  using assms accept_continuation [of "byte (s ! 1)" "byte (s ! 0)"]
    firstSize_range [of "byte (s ! 0)"]
  by (auto simp: DecodeRuneInString_def Let_def split: if_splits)

lemma decode_take:
  assumes "2 \<le> n" and "snd (DecodeRuneInString (take n s)) = n \<or> snd (DecodeRuneInString s) = n"
  shows "DecodeRuneInString (take n s) = DecodeRuneInString s"
  using assms firstSize_range [of "byte (s ! 0)"]
  by (auto simp: DecodeRuneInString_def Let_def split: if_splits)

lemma decode_multi_cont:
  assumes "2 \<le> snd (DecodeRuneInString s)" and "0 < j" and "j < snd (DecodeRuneInString s)"
  shows "continuation (byte (s ! j))"
proof -
  have "snd (DecodeRuneInString s) \<le> 4" by (rule decode_width_le4)
  then have "j = 1 \<or> j = 2 \<or> j = 3" using assms by arith
  then show ?thesis
    using decode_multi(4-6) [OF assms(1)] assms(3) by auto
qed

lemma decode_multi_lead:
  assumes "2 \<le> snd (DecodeRuneInString s)"
  shows "0xC2 \<le> byte (s ! 0)"
  using decode_multi(2,3) [OF assms] by (simp add: invalidLead_def)

lemma no_straddle:
  assumes "runeBoundary s p"
  shows "2 \<le> snd (DecodeRuneInString (drop st s)) \<Longrightarrow> st < p \<Longrightarrow>
         p < st + snd (DecodeRuneInString (drop st s)) \<Longrightarrow> False"
  using assms
proof (induction rule: runeBoundary.induct)
  case boundary_start
  then show ?case by simp
next
  case (boundary_step q)
  let ?wq = "snd (DecodeRuneInString (drop q s))"
  let ?w = "snd (DecodeRuneInString (drop st s))"
  have wst: "?w \<le> length (drop st s)"
    by (rule DecodeRuneInString_width_le)
  then have stlen: "st < length s"
    using boundary_step.prems(1) by (cases "st < length s") auto
  consider "q < st" | "q = st" | "st < q" by arith
  then show ?case
  proof cases
    case 1
    then have j: "0 < st - q" "st - q < ?wq"
      using boundary_step.prems by auto
    then have "2 \<le> ?wq" by arith
    then have "continuation (byte (drop q s ! (st - q)))"
      using j by (rule decode_multi_cont)
    then have c: "continuation (byte (s ! st))"
      using 1 boundary_step.hyps by simp
    have "0xC2 \<le> byte (drop st s ! 0)"
      using boundary_step.prems(1) by (rule decode_multi_lead)
    then have "0xC2 \<le> byte (s ! st)"
      using stlen by simp
    with c show False by (simp add: continuation_def)
  next
    case 2
    with boundary_step.prems show False by simp
  next
    case 3
    show False
    proof (cases "q < st + ?w")
      case True
      with 3 boundary_step.IH boundary_step.prems(1) show False by blast
    next
      case False
      with boundary_step.prems show False by simp
    qed
  qed
qed

lemma backToRuneStart_le: "backToRuneStart t a lim \<le> a"
proof (induction t a lim rule: backToRuneStart.induct)
  case (1 s start lim)
  show ?case
  proof (cases "lim \<le> start \<and> \<not> RuneStart (byte (s ! nat start))")
    case True
    then have "backToRuneStart s start lim = backToRuneStart s (start - 1) lim"
      by (subst backToRuneStart.simps) simp
    moreover have "backToRuneStart s (start - 1) lim \<le> start - 1"
      using "1.IH" True by simp
    ultimately show ?thesis by simp
  next
    case False
    then have "backToRuneStart s start lim = start"
      by (subst backToRuneStart.simps) auto
    then show ?thesis by simp
  qed
qed

lemma backToRuneStart_found:
  "lim \<le> p \<Longrightarrow> p \<le> a \<Longrightarrow> RuneStart (byte (t ! nat p)) \<Longrightarrow>
   (\<forall>j. p < j \<and> j \<le> a \<longrightarrow> \<not> RuneStart (byte (t ! nat j))) \<Longrightarrow>
   backToRuneStart t a lim = p"
proof (induction t a lim rule: backToRuneStart.induct)
  case (1 s start lim)
  show ?case
  proof (cases "start = p")
    case True
    then show ?thesis
      using "1.prems" by (subst backToRuneStart.simps) simp
  next
    case False
    then have lt: "p < start" using "1.prems" by simp
    then have nrs: "\<not> RuneStart (byte (s ! nat start))"
      using "1.prems" by simp
    have "backToRuneStart s start lim = backToRuneStart s (start - 1) lim"
      using lt "1.prems" nrs by (subst backToRuneStart.simps) simp
    moreover have "backToRuneStart s (start - 1) lim = p"
      using "1.IH" lt "1.prems" nrs by simp
    ultimately show ?thesis by simp
  qed
qed

lemma decodeLast_ascii:
  assumes "t \<noteq> []" and "byte (t ! (length t - 1)) < 0x80"
  shows "DecodeLastRuneInString t = (int (byte (t ! (length t - 1))), 1)"
proof -
  have "nat (int (length t) - 1) = length t - 1" by simp
  then show ?thesis
    using assms by (simp add: DecodeLastRuneInString_def Let_def)
qed

lemma decodeLast_multi:
  assumes ne: "t \<noteq> []" and hi: "\<not> byte (t ! (length t - 1)) < 0x80"
  shows "DecodeLastRuneInString t =
    (let e = int (length t);
         lim = (if e - 4 < 0 then 0 else e - 4);
         start0 = backToRuneStart t (e - 2) lim;
         start = (if start0 < 0 then 0 else start0);
         (r, sz) = DecodeRuneInString (drop (nat start) t)
     in if start + int sz \<noteq> e then (RuneError, 1) else (r, sz))"
proof -
  have "nat (int (length t) - 1) = length t - 1" by simp
  then show ?thesis
    using assms by (simp add: DecodeLastRuneInString_def Let_def)
qed

lemma decodeLast_after_decode:
  assumes bd: "runeBoundary s p" and lt: "p < length s"
  shows "DecodeLastRuneInString (take (p + snd (DecodeRuneInString (drop p s))) s)
           = DecodeRuneInString (drop p s)"
proof -
  let ?x = "drop p s"
  let ?w = "snd (DecodeRuneInString ?x)"
  let ?t = "take (p + ?w) s"
  have xne: "?x \<noteq> []" using lt by simp
  have w1: "1 \<le> ?w" using xne by (rule DecodeRuneInString_width_pos)
  have wle: "?w \<le> length ?x" by (rule DecodeRuneInString_width_le)
  then have e: "length ?t = p + ?w" using lt by simp
  have tne: "?t \<noteq> []" using e w1 by auto
  have x0: "?x ! 0 = s ! p" using lt by simp
  have tn: "\<And>j. j < p + ?w \<Longrightarrow> ?t ! j = s ! j" by simp
  have last: "?t ! (length ?t - 1) = ?x ! (?w - 1)"
    using e w1 wle lt by (simp add: tn)
  show ?thesis
  proof (cases "byte (?x ! 0) < 0x80")
    case True
    then have d: "DecodeRuneInString ?x = (int (byte (?x ! 0)), 1)"
      using xne by (simp add: decode_ascii)
    then have "?w = 1" by simp
    then show ?thesis
      using decodeLast_ascii [OF tne] last True d by simp
  next
    case False
    note hi0 = this
    show ?thesis
    proof (cases "2 \<le> ?w")
      case True
      have hiLast: "\<not> byte (?t ! (length ?t - 1)) < 0x80"
      proof -
        have "continuation (byte (?x ! (?w - 1)))"
          using True by (intro decode_multi_cont) auto
        then show ?thesis using last by (simp add: continuation_def)
      qed
      have w4: "?w \<le> 4" by (rule decode_width_le4)
      have found: "backToRuneStart ?t (int (length ?t) - 2)
          (if int (length ?t) - 4 < 0 then 0 else int (length ?t) - 4) = int p"
      proof (rule backToRuneStart_found)
        show "(if int (length ?t) - 4 < 0 then 0 else int (length ?t) - 4) \<le> int p"
          using e w4 by simp
        show "int p \<le> int (length ?t) - 2" using e True by simp
        have "0xC2 \<le> byte (?x ! 0)" using True by (rule decode_multi_lead)
        then show "RuneStart (byte (?t ! nat (int p)))"
          using x0 w1 by (simp add: RuneStart_def tn)
        show "\<forall>j. int p < j \<and> j \<le> int (length ?t) - 2 \<longrightarrow> \<not> RuneStart (byte (?t ! nat j))"
        proof (intro allI impI)
          fix j :: int
          assume j: "int p < j \<and> j \<le> int (length ?t) - 2"
          then have jn: "p < nat j" "nat j < p + ?w" using e by auto
          then have "continuation (byte (?x ! (nat j - p)))"
            using True by (intro decode_multi_cont) auto
          moreover have "?x ! (nat j - p) = ?t ! nat j"
            using jn lt by (simp add: tn)
          ultimately show "\<not> RuneStart (byte (?t ! nat j))"
            by (simp add: RuneStart_def continuation_def)
        qed
      qed
      have "drop p ?t = take ?w ?x"
        by (simp add: drop_take)
      moreover have "DecodeRuneInString (take ?w ?x) = DecodeRuneInString ?x"
        using True by (intro decode_take) auto
      ultimately have dd: "DecodeRuneInString (drop p ?t) = DecodeRuneInString ?x"
        by simp
      show ?thesis
        unfolding decodeLast_multi [OF tne hiLast] Let_def found
        using dd e by (simp add: split_beta)
    next
      case False
      then have w: "?w = 1" using w1 by simp
      have d: "DecodeRuneInString ?x = (RuneError, 1)"
        using xne hi0 w by (intro decode_nonascii_1) auto
      have e1: "length ?t = p + 1" using e w by simp
      have hiLast: "\<not> byte (?t ! (length ?t - 1)) < 0x80"
        using last w hi0 by simp
      define st0 where "st0 = backToRuneStart ?t (int (length ?t) - 2)
          (if int (length ?t) - 4 < 0 then 0 else int (length ?t) - 4)"
      define st where "st = nat (if st0 < 0 then 0 else st0)"
      have st0le: "st0 \<le> int p - 1"
        using backToRuneStart_le [of ?t "int (length ?t) - 2"] e1 by (simp add: st0_def)
      have stle: "st \<le> p - 1" using st0le unfolding st_def by (cases "st0 < 0") auto
      have stint: "(if st0 < 0 then 0 else st0) = int st" by (simp add: st_def)
      have res: "DecodeLastRuneInString ?t =
          (if int st + int (snd (DecodeRuneInString (drop st ?t))) \<noteq> int (length ?t)
           then (RuneError, 1) else DecodeRuneInString (drop st ?t))"
        unfolding decodeLast_multi [OF tne hiLast] Let_def st0_def [symmetric] stint
        by (simp add: split_beta)
      show ?thesis
      proof (cases "st + snd (DecodeRuneInString (drop st ?t)) = length ?t")
        case False
        then have "int st + int (snd (DecodeRuneInString (drop st ?t))) \<noteq> int (length ?t)"
          by linarith
        then show ?thesis using res d by simp
      next
        case True
        note full = this
        show ?thesis
        proof (cases "p = 0")
          case True
          then have "st = 0" using stle by simp
          have t1: "?t = take 1 s" using True w by simp
          have "DecodeRuneInString (take 1 s) = (RuneError, 1)"
          proof (rule decode_nonascii_1)
            show "take 1 s \<noteq> []" using lt by (cases s) auto
            show "0x80 \<le> byte (take 1 s ! 0)" using hi0 x0 True by simp
            show "snd (DecodeRuneInString (take 1 s)) \<le> 1"
              using DecodeRuneInString_width_le [of "take 1 s"] by simp
          qed
          then have dz: "DecodeRuneInString (drop st ?t) = (RuneError, 1)"
            using \<open>st = 0\<close> t1 by simp
          have "DecodeLastRuneInString ?t = (RuneError, 1)"
            by (subst res, subst (1 2) dz) simp
          then show ?thesis
            using d by simp
        next
          case False
          then have stp: "st < p" using stle by simp
          define n where "n = snd (DecodeRuneInString (drop st ?t))"
          have neq: "n = p + 1 - st" using full e1 unfolding n_def by linarith
          have n2: "2 \<le> n" using neq stp by simp
          have dt0: "drop st ?t = take (p + 1 - st) (drop st s)"
            using w by (simp add: drop_take)
          then have dt: "drop st ?t = take n (drop st s)"
            using neq by simp
          have tn_w: "snd (DecodeRuneInString (take n (drop st s))) = n"
            by (subst dt [symmetric]) (simp only: n_def)
          then have "DecodeRuneInString (take n (drop st s)) = DecodeRuneInString (drop st s)"
            using n2 by (intro decode_take) auto
          then have same: "snd (DecodeRuneInString (drop st s)) = n"
            using tn_w by simp
          have False
          proof (rule no_straddle [OF bd, of st])
            show "2 \<le> snd (DecodeRuneInString (drop st s))" using same n2 by simp
            show "st < p" by (rule stp)
            show "p < st + snd (DecodeRuneInString (drop st s))"
              using same neq stp by simp
          qed
          then show ?thesis ..
        qed
      qed
    qed
  qed
qed

section \<open>Rune boundaries, computed\<close>

lemma reaches_boundary: "reaches s q p \<Longrightarrow> runeBoundary s q \<Longrightarrow> runeBoundary s p"
proof (induction s q p rule: reaches.induct)
  case (1 s q p)
  show ?case
  proof (cases "q = p")
    case True
    then show ?thesis using "1.prems" by simp
  next
    case False
    then have a: "q < p \<and> q < length s"
      and r: "reaches s (q + snd (DecodeRuneInString (drop q s))) p"
      using "1.prems"(1) by (subst (asm) reaches.simps; simp split: if_splits)+
    have "runeBoundary s (q + snd (DecodeRuneInString (drop q s)))"
      using "1.prems"(2) a by (simp add: boundary_step)
    then show ?thesis using "1.IH" [OF False a r] by simp
  qed
qed

lemma reaches_step:
  "reaches s a q \<Longrightarrow> q < length s \<Longrightarrow> reaches s a (q + snd (DecodeRuneInString (drop q s)))"
proof (induction s a q rule: reaches.induct)
  case (1 s a q)
  let ?w = "snd (DecodeRuneInString (drop q s))"
  have w: "1 \<le> ?w"
    using "1.prems"(2) DecodeRuneInString_width_pos [of "drop q s"] by simp
  show ?case
  proof (cases "a = q")
    case True
    have "reaches s (q + ?w) (q + ?w)" by (subst reaches.simps) simp
    then show ?thesis
      using True w "1.prems"(2) by (subst reaches.simps) simp
  next
    case False
    then have b: "a < q \<and> a < length s"
      and r: "reaches s (a + snd (DecodeRuneInString (drop a s))) q"
      using "1.prems"(1) by (subst (asm) reaches.simps; simp split: if_splits)+
    have "reaches s (a + snd (DecodeRuneInString (drop a s))) (q + ?w)"
      using "1.IH" [OF False b r "1.prems"(2)] .
    then show ?thesis
      using b w by (subst reaches.simps) simp
  qed
qed

lemma runeBoundary_reaches [code]: "runeBoundary s p = reaches s 0 p"
proof
  assume "runeBoundary s p"
  then show "reaches s 0 p"
  proof (induction rule: runeBoundary.induct)
    case boundary_start
    show ?case by (subst reaches.simps) simp
  next
    case (boundary_step q)
    then show ?case by (simp add: reaches_step)
  qed
next
  assume "reaches s 0 p"
  then show "runeBoundary s p"
    using boundary_start by (rule reaches_boundary)
qed


section \<open>Stepping back over a rune\<close>

lemma wellPlaced_lexNew: "wellPlaced (lexNew nm inp)"
  by (simp add: wellPlaced_def lexNew_def boundary_start)

lemma lexer_next_not_eof:
  "fst (lexer_next l) \<noteq> eof \<Longrightarrow> pos l < length (input l)"
  by (cases "pos l < length (input l)") (simp_all add: lexer_next_def)

lemma lexer_next_in_range:
  "pos l < length (input l) \<Longrightarrow>
     lexer_next l =
       (fst (DecodeRuneInString (drop (pos l) (input l))),
        if fst (DecodeRuneInString (drop (pos l) (input l))) = 0x0A
        then l\<lparr>pos := pos l + snd (DecodeRuneInString (drop (pos l) (input l))),
               line := line l + 1\<rparr>
        else l\<lparr>pos := pos l + snd (DecodeRuneInString (drop (pos l) (input l)))\<rparr>)"
  by (simp add: lexer_next_def Let_def split_beta)

lemma backup_lexer_next:
  assumes wp: "wellPlaced l" and ne: "fst (lexer_next l) \<noteq> eof"
  shows "backup (snd (lexer_next l)) = l"
proof -
  let ?d = "DecodeRuneInString (drop (pos l) (input l))"
  have lt: "pos l < length (input l)" using ne by (rule lexer_next_not_eof)
  have nat: "\<not> atEOF l" using wp lt by (auto simp: wellPlaced_def)
  have bd: "runeBoundary (input l) (pos l)" using wp by (simp add: wellPlaced_def)
  have w: "0 < snd ?d"
    using DecodeRuneInString_width_pos [of "drop (pos l) (input l)"] lt by simp
  have last: "DecodeLastRuneInString (take (pos l + snd ?d) (input l)) = ?d"
    using bd lt by (rule decodeLast_after_decode)
  show ?thesis
  proof (cases "fst ?d = 0x0A")
    case True
    then show ?thesis
      using nat w last by (simp add: lexer_next_in_range [OF lt] backup_def split_beta)
  next
    case False
    then show ?thesis
      using nat w last by (simp add: lexer_next_in_range [OF lt] backup_def split_beta)
  qed
qed

lemma wellPlaced_lexer_next: "wellPlaced l \<Longrightarrow> wellPlaced (snd (lexer_next l))"
proof (cases "pos l < length (input l)")
  case True
  assume wp: "wellPlaced l"
  then have "runeBoundary (input l) (pos l + snd (DecodeRuneInString (drop (pos l) (input l))))"
    using True by (simp add: wellPlaced_def boundary_step)
  moreover have "\<not> atEOF l" using wp True by (auto simp: wellPlaced_def)
  ultimately show ?thesis
    by (simp add: lexer_next_in_range [OF True] wellPlaced_def)
next
  case False
  assume "wellPlaced l"
  then show ?thesis using False by (simp add: lexer_next_def wellPlaced_def)
qed

lemma wellPlaced_backup: "wellPlaced l \<Longrightarrow> wellPlaced (backup l)"
proof (cases "\<not> atEOF l \<and> 0 < pos l")
  case False
  assume "wellPlaced l"
  then show ?thesis using False by (auto simp: backup_def)
next
  case True
  assume wp: "wellPlaced l"
  then have "runeBoundary (input l) (pos l)" by (simp add: wellPlaced_def)
  then obtain q where q: "runeBoundary (input l) q" "q < length (input l)"
      "pos l = q + snd (DecodeRuneInString (drop q (input l)))"
    using True by (cases rule: runeBoundary.cases) auto
  have "DecodeLastRuneInString (take (pos l) (input l)) = DecodeRuneInString (drop q (input l))"
    using decodeLast_after_decode [OF q(1,2)] q(3) by simp
  then show ?thesis
    using True q by (simp add: backup_def split_beta wellPlaced_def Let_def)
qed

text \<open>
  C7: in every state of the scanner in which \<open>next\<close> returns a rune other than \<open>eof\<close>,
  a \<open>backup\<close> right after it restores \<open>pos\<close> and \<open>line\<close>; when the rune is a
  newline, \<open>backup\<close> takes the line counter down by exactly one.
\<close>

theorem C7_backup_undoes_next:
  assumes "wellPlaced l" and "fst (lexer_next l) \<noteq> eof"
  shows "pos (backup (snd (lexer_next l))) = pos l \<and>
         line (backup (snd (lexer_next l))) = line l \<and>
         (fst (lexer_next l) = 0x0A \<longrightarrow>
            line (backup (snd (lexer_next l))) = line (snd (lexer_next l)) - 1)"
proof -
  have lt: "pos l < length (input l)" using assms(2) by (rule lexer_next_not_eof)
  have b: "backup (snd (lexer_next l)) = l" using assms by (rule backup_lexer_next)
  have n: "fst (lexer_next l) = 0x0A \<longrightarrow> line (snd (lexer_next l)) = line l + 1"
    by (simp add: lexer_next_in_range [OF lt])
  show ?thesis
    unfolding b using n by simp
qed

theorem C7_backup_undoes_next_witness:
  "wellPlaced (lexNew ''f'' ''\<newline>x'') \<and>
   fst (lexer_next (lexNew ''f'' ''\<newline>x'')) = 0x0A \<and>
   pos (snd (lexer_next (lexNew ''f'' ''\<newline>x''))) = 1 \<and>
   line (snd (lexer_next (lexNew ''f'' ''\<newline>x''))) = 2 \<and>
   pos (backup (snd (lexer_next (lexNew ''f'' ''\<newline>x'')))) = 0 \<and>
   line (backup (snd (lexer_next (lexNew ''f'' ''\<newline>x'')))) = 1"
proof -
  let ?l = "lexNew ''f'' ''\<newline>x''"
  have wp: "wellPlaced ?l" by (rule wellPlaced_lexNew)
  have r: "fst (lexer_next ?l) = 0x0A" by code_simp
  then have ne: "fst (lexer_next ?l) \<noteq> eof" by (simp add: eof_def)
  have p: "pos (snd (lexer_next ?l)) = 1" by code_simp
  have n: "line (snd (lexer_next ?l)) = 2" by code_simp
  show ?thesis
    using C7_backup_undoes_next [OF wp ne] wp r p n by (simp add: lexNew_def)
qed

section \<open>Reading past the end of the input\<close>

lemma lexSymbolFn_panics: "lexSymbolFn lx = Inl IndexOutOfRange \<longleftrightarrow> length (input lx) \<le> pos lx"
  by (simp add: lexSymbolFn_def Let_def errorf_def)

lemma lexSpaceFn_loop_panics:
  "lexSpaceFn_loop lx = Inl IndexOutOfRange \<longleftrightarrow>
     (\<forall>i. pos lx \<le> i \<and> i < length (input lx) \<longrightarrow> IsSpace (int (byte (input lx ! i))))"
proof (induction lx rule: lexSpaceFn_loop.induct)
  case (1 lx)
  show ?case
  proof (cases "length (input lx) \<le> pos lx")
    case True
    then have "lexSpaceFn_loop lx = Inl IndexOutOfRange"
      by (simp add: lexSpaceFn_loop.simps)
    moreover have "\<forall>i. pos lx \<le> i \<and> i < length (input lx) \<longrightarrow>
        IsSpace (int (byte (input lx ! i)))"
      using True by auto
    ultimately show ?thesis by simp
  next
    case False
    note inb = this
    show ?thesis
    proof (cases "IsSpace (int (byte (input lx ! pos lx)))")
      case True
      have eq: "lexSpaceFn_loop lx = lexSpaceFn_loop (lx\<lparr>pos := pos lx + 1\<rparr>)"
        using inb True by (subst lexSpaceFn_loop.simps) (simp add: lexer_eof_def)
      have ih: "lexSpaceFn_loop (lx\<lparr>pos := pos lx + 1\<rparr>) = Inl IndexOutOfRange \<longleftrightarrow>
          (\<forall>i. pos lx + 1 \<le> i \<and> i < length (input lx) \<longrightarrow> IsSpace (int (byte (input lx ! i))))"
        using "1.IH" inb True by (simp add: lexer_eof_def)
      have "(\<forall>i. pos lx \<le> i \<and> i < length (input lx) \<longrightarrow> IsSpace (int (byte (input lx ! i))))
          \<longleftrightarrow> (\<forall>i. pos lx + 1 \<le> i \<and> i < length (input lx) \<longrightarrow> IsSpace (int (byte (input lx ! i))))"
      proof
        assume a: "\<forall>i. pos lx \<le> i \<and> i < length (input lx) \<longrightarrow> IsSpace (int (byte (input lx ! i)))"
        show "\<forall>i. pos lx + 1 \<le> i \<and> i < length (input lx) \<longrightarrow> IsSpace (int (byte (input lx ! i)))"
          using a by simp
      next
        assume a: "\<forall>i. pos lx + 1 \<le> i \<and> i < length (input lx) \<longrightarrow> IsSpace (int (byte (input lx ! i)))"
        show "\<forall>i. pos lx \<le> i \<and> i < length (input lx) \<longrightarrow> IsSpace (int (byte (input lx ! i)))"
        proof (intro allI impI)
          fix i assume b: "pos lx \<le> i \<and> i < length (input lx)"
          show "IsSpace (int (byte (input lx ! i)))"
          proof (cases "i = pos lx")
            case True
            then show ?thesis using \<open>IsSpace (int (byte (input lx ! pos lx)))\<close> by simp
          next
            case False
            then show ?thesis using a b by simp
          qed
        qed
      qed
      then show ?thesis using eq ih by simp
    next
      case False
      have "lexSpaceFn_loop lx = Inr lx"
        using inb False by (subst lexSpaceFn_loop.simps) simp
      moreover have "\<not> (\<forall>i. pos lx \<le> i \<and> i < length (input lx) \<longrightarrow> IsSpace (int (byte (input lx ! i))))"
        using inb False by (auto intro: exI [of _ "pos lx"])
      ultimately show ?thesis by simp
    qed
  qed
qed

lemma lexSpaceFn_panics:
  "lexSpaceFn lx = Inl IndexOutOfRange \<longleftrightarrow>
     (\<forall>i. pos lx \<le> i \<and> i < length (input lx) \<longrightarrow> IsSpace (int (byte (input lx ! i))))"
  using lexSpaceFn_loop_panics [of lx]
  by (cases "lexSpaceFn_loop lx") (auto simp: lexSpaceFn_def)

lemma lexer_next_at_end: "length (input lx) \<le> pos lx \<Longrightarrow> lexer_next lx = (eof, lx\<lparr>atEOF := True\<rparr>)"
  by (simp add: lexer_next_def)

lemma backup_atEOF: "atEOF lx \<Longrightarrow> backup lx = lx"
  by (simp add: backup_def)

lemma rangeString_Cons: "byte c < 0x80 \<Longrightarrow> rangeString (c # s) = (0, int (byte c)) # rangeFrom 1 s"
  by (simp add: rangeString_def rangeFrom.simps [of 0 "c # s"] DecodeRuneInString_def)

lemma acceptString_at_end:
  "length (input lx) \<le> pos lx \<Longrightarrow> byte c < 0x80 \<Longrightarrow> acceptString (c # s) lx = (False, lx\<lparr>atEOF := True\<rparr>)"
  by (simp add: acceptString_def rangeString_Cons lexer_next_at_end eof_def)

lemma acceptKeyword_at_end:
  "length (input lx) \<le> pos lx \<Longrightarrow> byte c < 0x80 \<Longrightarrow> acceptKeyword U (c # s) lx = (False, lx\<lparr>atEOF := True\<rparr>)"
  by (simp add: acceptKeyword_def acceptString_at_end)

lemma acceptRune_at_end:
  "length (input lx) \<le> pos lx \<Longrightarrow> r \<noteq> eof \<Longrightarrow> acceptRune r lx = (False, lx\<lparr>atEOF := True\<rparr>)"
  by (simp add: acceptRune_def lexer_next_at_end backup_atEOF)

lemma acceptIdentifier_at_end:
  "length (input lx) \<le> pos lx \<Longrightarrow> acceptIdentifier U lx = (False, lx\<lparr>atEOF := True\<rparr>)"
  by (simp add: acceptIdentifier_def lexer_next_at_end backup_atEOF eof_def IsLetter_def)

text \<open>
  C10: \<open>lexSymbolFn\<close> and \<open>lexSpaceFn\<close> read \<open>input[pos]\<close> unguarded. \<open>lexSymbolFn\<close>
  panics exactly when \<open>pos\<close> is at or past the end of the input, \<open>lexSpaceFn\<close> exactly
  when no byte from \<open>pos\<close> on is a non-space byte. Every other state function, and
  \<open>next\<close>, tests for the end of the input first: at the end of the input they return
  their result without reading a byte.
\<close>

theorem C10_bounds:
  "(lexSymbolFn lx = Inl IndexOutOfRange \<longleftrightarrow> length (input lx) \<le> pos lx) \<and>
   (lexSpaceFn lx = Inl IndexOutOfRange \<longleftrightarrow>
      (\<forall>i. pos lx \<le> i \<and> i < length (input lx) \<longrightarrow> IsSpace (int (byte (input lx ! i))))) \<and>
   (length (input lx) \<le> pos lx \<longrightarrow>
      lexer_next lx = (eof, lx\<lparr>atEOF := True\<rparr>) \<and>
      lexRootFn U lx = (None, lx) \<and>
      lexLineCommentFn lx = (None, lx) \<and>
      lexEatLineFn lx = (None, lx) \<and>
      lexBlockCommentFn lx = errorf lx ''Unexpected EOF'' \<and>
      lexNamespaceFn U lx = errorf (lx\<lparr>atEOF := True\<rparr>) ''Badly formed namespace'' \<and>
      lexBlockFn U lx =
        errorf (lx\<lparr>atEOF := True\<rparr>) ''Expected namespace, struct, class, or enum.'')"
proof (intro conjI impI)
  show "lexSymbolFn lx = Inl IndexOutOfRange \<longleftrightarrow> length (input lx) \<le> pos lx"
    by (rule lexSymbolFn_panics)
  show "lexSpaceFn lx = Inl IndexOutOfRange \<longleftrightarrow>
      (\<forall>i. pos lx \<le> i \<and> i < length (input lx) \<longrightarrow> IsSpace (int (byte (input lx ! i))))"
    by (rule lexSpaceFn_panics)
next
  assume e: "length (input lx) \<le> pos lx"
  then have e': "length (input (lx\<lparr>atEOF := True\<rparr>)) \<le> pos (lx\<lparr>atEOF := True\<rparr>)"
    by simp
  show "lexer_next lx = (eof, lx\<lparr>atEOF := True\<rparr>)"
    using e by (rule lexer_next_at_end)
  show "lexRootFn U lx = (None, lx)"
    using e by (simp add: lexRootFn_def lexer_eof_def)
  show "lexLineCommentFn lx = (None, lx)"
    using e by (simp add: lexLineCommentFn_def lexer_eof_def)
  show "lexEatLineFn lx = (None, lx)"
    using e by (simp add: lexEatLineFn_def lexer_eof_def)
  show "lexBlockCommentFn lx = errorf lx ''Unexpected EOF''"
    using e by (simp add: lexBlockCommentFn_def lexer_eof_def)
  show "lexNamespaceFn U lx = errorf (lx\<lparr>atEOF := True\<rparr>) ''Badly formed namespace''"
    using e acceptIdentifier_at_end [OF e', of U]
    by (simp add: lexNamespaceFn_def acceptRune_at_end eof_def)
  show "lexBlockFn U lx =
      errorf (lx\<lparr>atEOF := True\<rparr>) ''Expected namespace, struct, class, or enum.''"
    using e acceptKeyword_at_end [OF e', of _ U]
    by (simp add: lexBlockFn_def acceptKeyword_at_end)
qed

theorem C10_bounds_witness:
  "length (input (lexNew ''f'' '''')) \<le> pos (lexNew ''f'' '''') \<and>
   lexSymbolFn (lexNew ''f'' '''') = Inl IndexOutOfRange \<and>
   lexSpaceFn (lexNew ''f'' '''') = Inl IndexOutOfRange \<and>
   lexer_next (lexNew ''f'' '''') = (eof, (lexNew ''f'' '''')\<lparr>atEOF := True\<rparr>) \<and>
   lexRootFn latin1Only (lexNew ''f'' '''') = (None, lexNew ''f'' '''') \<and>
   lexBlockCommentFn (lexNew ''f'' '''') = errorf (lexNew ''f'' '''') ''Unexpected EOF''"
proof -
  have e: "length (input (lexNew ''f'' '''')) \<le> pos (lexNew ''f'' '''')"
    by (simp add: lexNew_def)
  have sp: "\<forall>i. pos (lexNew ''f'' '''') \<le> i \<and> i < length (input (lexNew ''f'' '''')) \<longrightarrow>
      IsSpace (int (byte (input (lexNew ''f'' '''') ! i)))"
    by (simp add: lexNew_def)
  show ?thesis
    using C10_bounds [of "lexNew ''f'' ''''" latin1Only] e sp by simp
qed

section \<open>Keywords\<close>

text \<open>
  A rune below \<open>0x80\<close> is decoded from one byte only, that byte: so \<open>acceptString\<close> on
  ASCII text compares bytes.
\<close>

lemma mod_window: "q * m \<le> (n::nat) \<Longrightarrow> n < q * m + m \<Longrightarrow> n mod m = n - q * m"
proof -
  assume a: "q * m \<le> n" and b: "n < q * m + m"
  have "(n - q * m + q * m) mod m = (n - q * m) mod m"
    by (rule mod_mult_self1)
  moreover have "n - q * m + q * m = n" using a by simp
  moreover have "(n - q * m) mod m = n - q * m" using a b by simp
  ultimately show ?thesis by simp
qed


lemma rune2_ge: "\<not> invalidLead s0 \<Longrightarrow> firstSize s0 \<le> 2 \<Longrightarrow> 0x80 \<le> rune2 s0 s1"
proof -
  assume "\<not> invalidLead s0" and "firstSize s0 \<le> 2"
  then have "0xC2 \<le> s0 \<and> s0 < 0xE0"
    by (simp add: invalidLead_def firstSize_def split: if_splits)
  then have "2 \<le> s0 mod 32" using mod_window [of 6 32 s0] by auto
  then have "128 \<le> (s0 mod 32) * 64 + s1 mod 64" by simp
  then show ?thesis by (simp add: rune2_def)
qed

lemma rune3_ge:
  "\<not> invalidLead s0 \<Longrightarrow> firstSize s0 = 3 \<Longrightarrow> \<not> (s1 < acceptLo s0 \<or> acceptHi s0 < s1) \<Longrightarrow>
     0x80 \<le> rune3 s0 s1 s2"
proof -
  assume a: "\<not> invalidLead s0" "firstSize s0 = 3" "\<not> (s1 < acceptLo s0 \<or> acceptHi s0 < s1)"
  then have r: "0xE0 \<le> s0 \<and> s0 < 0xF0"
    by (simp add: invalidLead_def firstSize_def split: if_splits)
  have "1 \<le> s0 mod 16 \<or> 32 \<le> s1 mod 64"
  proof (cases "s0 = 0xE0")
    case True
    then have "0xA0 \<le> s1 \<and> s1 \<le> 0xBF" using a(3) by (simp add: acceptLo_def acceptHi_def)
    then have "32 \<le> s1 mod 64" using mod_window [of 2 64 s1] by auto
    then show ?thesis ..
  next
    case False
    then have "1 \<le> s0 mod 16" using r mod_window [of 14 16 s0] by auto
    then show ?thesis ..
  qed
  then have "128 \<le> (s0 mod 16) * 4096 + (s1 mod 64) * 64 + s2 mod 64" by auto
  then show ?thesis by (simp add: rune3_def)
qed

lemma rune4_ge:
  "\<not> invalidLead s0 \<Longrightarrow> firstSize s0 = 4 \<Longrightarrow> \<not> (s1 < acceptLo s0 \<or> acceptHi s0 < s1) \<Longrightarrow>
     0x80 \<le> rune4 s0 s1 s2 s3"
proof -
  assume a: "\<not> invalidLead s0" "firstSize s0 = 4" "\<not> (s1 < acceptLo s0 \<or> acceptHi s0 < s1)"
  then have r: "0xF0 \<le> s0 \<and> s0 \<le> 0xF4"
    by (simp add: invalidLead_def firstSize_def split: if_splits)
  have "1 \<le> s0 mod 8 \<or> 16 \<le> s1 mod 64"
  proof (cases "s0 = 0xF0")
    case True
    then have "0x90 \<le> s1 \<and> s1 \<le> 0xBF" using a(3) by (simp add: acceptLo_def acceptHi_def)
    then have "16 \<le> s1 mod 64" using mod_window [of 2 64 s1] by auto
    then show ?thesis ..
  next
    case False
    then have "1 \<le> s0 mod 8" using r mod_window [of 30 8 s0] by auto
    then show ?thesis ..
  qed
  then have "128 \<le> (s0 mod 8) * 262144 + (s1 mod 64) * 4096 + (s2 mod 64) * 64 + s3 mod 64"
    by auto
  then show ?thesis by (simp add: rune4_def)
qed

lemma decode_nonascii_shape:
  assumes "s \<noteq> []" and "0x80 \<le> byte (s ! 0)"
  shows "fst (DecodeRuneInString s) = RuneError \<or>
    (\<not> invalidLead (byte (s ! 0)) \<and> \<not> (byte (s ! 1) < acceptLo (byte (s ! 0)) \<or>
        acceptHi (byte (s ! 0)) < byte (s ! 1)) \<and>
      ((firstSize (byte (s ! 0)) \<le> 2 \<and>
          fst (DecodeRuneInString s) = rune2 (byte (s ! 0)) (byte (s ! 1))) \<or>
       (firstSize (byte (s ! 0)) = 3 \<and>
          fst (DecodeRuneInString s) = rune3 (byte (s ! 0)) (byte (s ! 1)) (byte (s ! 2))) \<or>
       (firstSize (byte (s ! 0)) = 4 \<and>
          fst (DecodeRuneInString s) =
            rune4 (byte (s ! 0)) (byte (s ! 1)) (byte (s ! 2)) (byte (s ! 3)))))"
proof -
  have sz: "firstSize (byte (s ! 0)) = 2 \<or> firstSize (byte (s ! 0)) = 3 \<or>
      firstSize (byte (s ! 0)) = 4"
    by (simp add: firstSize_def)
  show ?thesis
    using assms sz by (auto simp: DecodeRuneInString_def Let_def)
qed

lemma decode_nonascii_ge:
  assumes "s \<noteq> []" and "0x80 \<le> byte (s ! 0)"
  shows "0x80 \<le> fst (DecodeRuneInString s)"
  using decode_nonascii_shape [OF assms] rune2_ge [of "byte (s ! 0)" "byte (s ! 1)"]
    rune3_ge [of "byte (s ! 0)" "byte (s ! 1)" "byte (s ! 2)"]
    rune4_ge [of "byte (s ! 0)" "byte (s ! 1)" "byte (s ! 2)" "byte (s ! 3)"]
  by (auto simp: RuneError_def)


lemma rangeFrom_Cons_ascii:
  "byte c < 0x80 \<Longrightarrow> rangeFrom i (c # k) = (i, int (byte c)) # rangeFrom (i + 1) k"
  by (simp add: rangeFrom.simps [of i "c # k"] DecodeRuneInString_def)

lemma take_drop_Cons:
  "p < length s \<Longrightarrow> take (Suc n) (drop p s) = s ! p # take n (drop (Suc p) s)"
  by (simp add: Cons_nth_drop_Suc [symmetric])

lemma CountNewlines_Cons:
  "CountNewlines (c # k) = (if byte c = 0x0A then 1 else 0) + CountNewlines k"
  by (simp add: CountNewlines_def)

lemma acceptString_loop_ascii:
  assumes "\<forall>c\<in>set k. byte c < 0x80"
  shows "fst (acceptString_loop (rangeFrom i k) l) =
           (take (length k) (drop (pos l) (input l)) = k) \<and>
         (take (length k) (drop (pos l) (input l)) = k \<longrightarrow>
            snd (acceptString_loop (rangeFrom i k) l) =
              l\<lparr>pos := pos l + length k, line := line l + int (CountNewlines k)\<rparr>)"
  using assms
proof (induction k arbitrary: i l)
  case Nil
  show ?case by (simp add: rangeFrom.simps [of i "[]"] CountNewlines_def)
next
  case (Cons c k)
  have c: "byte c < 0x80" and k: "\<forall>c\<in>set k. byte c < 0x80"
    using Cons.prems by simp_all
  note rf = rangeFrom_Cons_ascii [OF c, of i k]
  show ?case
  proof (cases "pos l < length (input l)")
    case False
    then have "lexer_next l = (eof, l\<lparr>atEOF := True\<rparr>)"
      by (simp add: lexer_next_at_end)
    then show ?thesis
      using False by (simp add: rf eof_def)
  next
    case True
    let ?x = "drop (pos l) (input l)"
    have xne: "?x \<noteq> []" using True by simp
    have x0: "?x ! 0 = input l ! pos l" using True by simp
    note nx = lexer_next_in_range [OF True]
    note td = take_drop_Cons [OF True, of "length k"]
    show ?thesis
    proof (cases "byte (input l ! pos l) < 0x80")
      case False
      then have "0x80 \<le> fst (DecodeRuneInString ?x)"
        using decode_nonascii_ge [OF xne] x0 by simp
      then have "fst (DecodeRuneInString ?x) \<noteq> int (byte c)"
        using c by simp
      moreover have "input l ! pos l \<noteq> c" using False c by auto
      ultimately show ?thesis
        by (simp add: rf nx td)
    next
      case True
      then have d: "DecodeRuneInString ?x = (int (byte (input l ! pos l)), 1)"
        using decode_ascii [OF xne] x0 by simp
      show ?thesis
      proof (cases "input l ! pos l = c")
        case False
        then show ?thesis
          by (simp add: rf nx td d)
      next
        case True
        let ?l1 = "if byte c = 0x0A then l\<lparr>pos := pos l + 1, line := line l + 1\<rparr>
                   else l\<lparr>pos := pos l + 1\<rparr>"
        have step: "acceptString_loop (rangeFrom i (c # k)) l =
            acceptString_loop (rangeFrom (i + 1) k) ?l1"
          using True by (simp add: rf nx d)
        have pre: "(take (length (c # k)) ?x = c # k) =
            (take (length k) (drop (pos ?l1) (input ?l1)) = k)"
          using True by (simp add: td)
        have ih: "fst (acceptString_loop (rangeFrom (i + 1) k) ?l1) =
             (take (length k) (drop (pos ?l1) (input ?l1)) = k) \<and>
           (take (length k) (drop (pos ?l1) (input ?l1)) = k \<longrightarrow>
              snd (acceptString_loop (rangeFrom (i + 1) k) ?l1) =
                ?l1\<lparr>pos := pos ?l1 + length k, line := line ?l1 + int (CountNewlines k)\<rparr>)"
          by (rule Cons.IH [OF k])
        have adv: "?l1\<lparr>pos := pos ?l1 + length k, line := line ?l1 + int (CountNewlines k)\<rparr> =
            l\<lparr>pos := pos l + length (c # k), line := line l + int (CountNewlines (c # k))\<rparr>"
          by (simp add: CountNewlines_Cons)
        show ?thesis
          unfolding step pre using ih unfolding adv by simp
      qed
    qed
  qed
qed


lemma runeBoundary_ascii_prefix:
  "\<forall>c\<in>set k. byte c < 0x80 \<Longrightarrow> take (length k) (drop p s) = k \<Longrightarrow>
     runeBoundary s p \<Longrightarrow> runeBoundary s (p + length k)"
proof (induction k arbitrary: p)
  case Nil
  then show ?case by simp
next
  case (Cons c k)
  have lt: "p < length s"
    using Cons.prems(2) by (cases "p < length s") auto
  have hd: "s ! p = c" and tl: "take (length k) (drop (Suc p) s) = k"
    using Cons.prems(2) by (simp_all add: take_drop_Cons [OF lt])
  have "DecodeRuneInString (drop p s) = (int (byte c), 1)"
    using decode_ascii [of "drop p s"] lt hd Cons.prems(1) by simp
  then have "runeBoundary s (p + 1)"
    using boundary_step [OF Cons.prems(3) lt] by simp
  then have "runeBoundary s (Suc p + length k)"
    using Cons.IH [of "Suc p"] Cons.prems(1) tl by simp
  then show ?case by simp
qed

lemma acceptString_ascii:
  assumes "\<forall>c\<in>set k. byte c < 0x80"
  shows "acceptString k l =
    (if take (length k) (drop (pos l) (input l)) = k
     then (True, l\<lparr>pos := pos l + length k, line := line l + int (CountNewlines k)\<rparr>)
     else (False, snd (acceptString k l)))"
  using acceptString_loop_ascii [OF assms, of 0 l]
  by (cases "acceptString_loop (rangeFrom 0 k) l") (auto simp: acceptString_def rangeString_def)

text \<open>
  C9: \<open>acceptKeyword(k)\<close> returns true exactly when the input at the current position
  begins with \<open>k\<close> and the rune after \<open>k\<close>, if there is one, is not a letter, a digit or
  an underscore; on success the position has advanced by \<open>len(k)\<close>. So a keyword that is
  a proper prefix of a longer identifier is not taken for the keyword. The keywords are
  ASCII text, as all keywords of the source are.
\<close>

theorem C9_acceptKeyword:
  assumes ascii: "\<forall>c\<in>set keyword. byte c < 0x80" and wp: "wellPlaced lx"
  shows "(fst (acceptKeyword U keyword lx) \<longleftrightarrow>
            take (length keyword) (drop (pos lx) (input lx)) = keyword \<and>
            (length (input lx) \<le> pos lx + length keyword \<or>
             \<not> isAlphaNumeric U
                 (fst (DecodeRuneInString (drop (pos lx + length keyword) (input lx)))))) \<and>
         (fst (acceptKeyword U keyword lx) \<longrightarrow>
            pos (snd (acceptKeyword U keyword lx)) = pos lx + length keyword)"
proof (cases "take (length keyword) (drop (pos lx) (input lx)) = keyword")
  case False
  then have "acceptString keyword lx = (False, snd (acceptString keyword lx))"
    using acceptString_ascii [OF ascii, of lx] by simp
  then have "fst (acceptString keyword lx) = False"
    by (metis fst_conv)
  then have "fst (acceptKeyword U keyword lx) = False"
    by (simp add: acceptKeyword_def split_beta)
  then show ?thesis using False by simp
next
  case True
  define lx1 where
    "lx1 = lx\<lparr>pos := pos lx + length keyword, line := line lx + int (CountNewlines keyword)\<rparr>"
  have acc: "acceptString keyword lx = (True, lx1)"
    using acceptString_ascii [OF ascii, of lx] True by (simp add: lx1_def)
  have p1: "pos lx1 = pos lx + length keyword" and i1: "input lx1 = input lx"
    by (simp_all add: lx1_def)
  show ?thesis
  proof (cases "length (input lx) \<le> pos lx + length keyword")
    case True
    then have "acceptKeyword U keyword lx = (True, lx1)"
      by (simp add: acceptKeyword_def acc lexer_eof_def p1 i1)
    then show ?thesis
      using True \<open>take (length keyword) (drop (pos lx) (input lx)) = keyword\<close> p1 by simp
  next
    case False
    then have lt: "pos lx1 < length (input lx1)" by (simp add: p1 i1)
    let ?r = "fst (DecodeRuneInString (drop (pos lx + length keyword) (input lx)))"
    have r: "fst (lexer_next lx1) = ?r"
      by (simp add: lexer_next_in_range [OF lt] p1 i1)
    have "0 \<le> ?r" by (rule DecodeRuneInString_nonneg)
    then have ne: "fst (lexer_next lx1) \<noteq> eof" using r by (simp add: eof_def)
    have "runeBoundary (input lx) (pos lx)" using wp by (simp add: wellPlaced_def)
    then have bd: "runeBoundary (input lx) (pos lx + length keyword)"
      using runeBoundary_ascii_prefix [OF ascii] \<open>take (length keyword) (drop (pos lx) (input lx)) = keyword\<close>
      by blast
    have wp1: "wellPlaced lx1"
      using wp bd False by (auto simp: wellPlaced_def lx1_def)
    have undo: "backup (snd (lexer_next lx1)) = lx1"
      using wp1 ne by (rule backup_lexer_next)
    have kw: "acceptKeyword U keyword lx =
        (if isAlphaNumeric U ?r
         then (False, backupMultiple (pos (snd (lexer_next lx1)) - pos lx) (snd (lexer_next lx1)))
         else (True, lx1))"
      using False r undo
      by (simp add: acceptKeyword_def acc lexer_eof_def p1 i1 acceptAlphaNumeric_def split_beta)
    show ?thesis
      using False \<open>take (length keyword) (drop (pos lx) (input lx)) = keyword\<close> p1
      by (simp add: kw)
  qed
qed

theorem C9_acceptKeyword_witness:
  "wellPlaced (lexNew ''f'' ''struct{'') \<and>
   fst (acceptKeyword latin1Only ''struct'' (lexNew ''f'' ''struct{'')) \<and>
   pos (snd (acceptKeyword latin1Only ''struct'' (lexNew ''f'' ''struct{''))) = 6 \<and>
   \<not> fst (acceptKeyword latin1Only ''struct'' (lexNew ''f'' ''structure''))"
proof -
  have a: "\<forall>c\<in>set ''struct''. byte c < 0x80" by simp
  have h1: "take (length ''struct'') (drop (pos (lexNew ''f'' ''struct{'')) (input (lexNew ''f'' ''struct{''))) = ''struct'' \<and>
      \<not> isAlphaNumeric latin1Only (fst (DecodeRuneInString
          (drop (pos (lexNew ''f'' ''struct{'') + length ''struct'') (input (lexNew ''f'' ''struct{'')))))"
    by code_simp
  have h2: "isAlphaNumeric latin1Only (fst (DecodeRuneInString
          (drop (pos (lexNew ''f'' ''structure'') + length ''struct'') (input (lexNew ''f'' ''structure'')))))
       \<and> \<not> length (input (lexNew ''f'' ''structure'')) \<le> pos (lexNew ''f'' ''structure'') + length ''struct''"
    by code_simp
  show ?thesis
    using C9_acceptKeyword [OF a wellPlaced_lexNew [of "''f''" "''struct{''"], of latin1Only]
      C9_acceptKeyword [OF a wellPlaced_lexNew [of "''f''" "''structure''"], of latin1Only]
      h1 h2 wellPlaced_lexNew [of "''f''" "''struct{''"]
    by (simp add: lexNew_def)
qed

section \<open>What the scanner sends\<close>

text \<open>
  The methods that read and step back change neither the input nor the channel; \<open>emit\<close>
  sends one item whose text is the input between \<open>start\<close> and \<open>pos\<close>.
\<close>

lemma lexer_next_keeps [simp]:
  "input (snd (lexer_next l)) = input l" "items (snd (lexer_next l)) = items l"
  by (simp_all add: lexer_next_def Let_def split_beta)

lemma backup_keeps [simp]:
  "input (backup l) = input l" "items (backup l) = items l"
  by (simp_all add: backup_def Let_def split_beta)

lemma backupMultiple_keeps [simp]:
  "input (backupMultiple n l) = input l" "items (backupMultiple n l) = items l"
  by (induction n arbitrary: l) simp_all

lemma accept_keeps [simp]:
  "input (snd (accept valid l)) = input l" "items (snd (accept valid l)) = items l"
  by (simp_all add: accept_def split_beta)

lemma acceptAlphaNumeric_keeps [simp]:
  "input (snd (acceptAlphaNumeric U l)) = input l" "items (snd (acceptAlphaNumeric U l)) = items l"
  by (simp_all add: acceptAlphaNumeric_def split_beta)

lemma acceptRun_loop_keeps [simp]:
  "input (acceptRun_loop valid l) = input l \<and> items (acceptRun_loop valid l) = items l"
proof (induction valid l rule: acceptRun_loop.induct)
  case (1 valid l)
  show ?case
  proof (cases "ContainsRune valid (fst (lexer_next l))")
    case True
    then have "acceptRun_loop valid l = acceptRun_loop valid (snd (lexer_next l))"
      by (subst acceptRun_loop.simps) simp
    then show ?thesis using "1.IH" [OF True] by simp
  next
    case False
    then have "acceptRun_loop valid l = snd (lexer_next l)"
      by (subst acceptRun_loop.simps) simp
    then show ?thesis by simp
  qed
qed

lemma acceptRun_keeps [simp]:
  "input (acceptRun valid l) = input l" "items (acceptRun valid l) = items l"
  by (simp_all add: acceptRun_def)

lemma acceptSpace_keeps [simp]:
  "input (snd (acceptSpace l)) = input l" "items (snd (acceptSpace l)) = items l"
  by (simp_all add: acceptSpace_def)

lemma acceptRune_keeps [simp]:
  "input (snd (acceptRune r l)) = input l" "items (snd (acceptRune r l)) = items l"
  by (simp_all add: acceptRune_def split_beta)

lemma acceptString_loop_keeps [simp]:
  "input (snd (acceptString_loop ics l)) = input l \<and>
   items (snd (acceptString_loop ics l)) = items l"
  by (induction ics arbitrary: l) (auto simp: split_beta)

lemma acceptString_keeps [simp]:
  "input (snd (acceptString k l)) = input l" "items (snd (acceptString k l)) = items l"
  by (simp_all add: acceptString_def)

lemma acceptIdentifier_loop_keeps [simp]:
  "input (acceptIdentifier_loop U l) = input l \<and> items (acceptIdentifier_loop U l) = items l"
proof (induction U l rule: acceptIdentifier_loop.induct)
  case (1 U l)
  show ?case
  proof (cases "isAlphaNumeric U (fst (lexer_next l))")
    case True
    then have "acceptIdentifier_loop U l = acceptIdentifier_loop U (snd (lexer_next l))"
      by (subst acceptIdentifier_loop.simps) simp
    then show ?thesis using "1.IH" [OF True] by simp
  next
    case False
    then have "acceptIdentifier_loop U l = snd (lexer_next l)"
      by (subst acceptIdentifier_loop.simps) simp
    then show ?thesis by simp
  qed
qed

lemma acceptIdentifier_keeps [simp]:
  "input (snd (acceptIdentifier U l)) = input l" "items (snd (acceptIdentifier U l)) = items l"
  by (simp_all add: acceptIdentifier_def split_beta)

lemma acceptKeyword_keeps [simp]:
  "input (snd (acceptKeyword U k l)) = input l" "items (snd (acceptKeyword U k l)) = items l"
  by (simp_all add: acceptKeyword_def split_beta Let_def)

lemma emit_sends [simp]:
  "input (emit t l) = input l"
  "sent (items (emit t l)) = sent (items l) @
     [\<lparr>item_typ = t, item_pos = start l, item_val = slice (input l) (start l) (pos l),
       item_line = startLine l\<rparr>]"
  by (simp_all add: emit_def send_def)

lemma ignore_keeps [simp]:
  "input (ignore l) = input l" "items (ignore l) = items l"
  by (simp_all add: ignore_def Let_def)

lemma sliceOK_slice: "sliceOK inp \<lparr>item_typ = t, item_pos = a, item_val = slice inp a b, item_line = n\<rparr>"
  by (simp add: sliceOK_def slice_def min_def)

lemma grown_refl: "grown l l"
  by (simp add: grown_def)

lemma grown_trans: "grown l l1 \<Longrightarrow> grown l1 l2 \<Longrightarrow> grown l l2"
proof -
  assume a: "grown l l1" and b: "grown l1 l2"
  obtain n1 where n1: "sent (items l1) = sent (items l) @ n1" "list_all (tokenItem (input l)) n1"
    using a by (metis append_take_drop_id grown_def)
  obtain n2 where n2: "sent (items l2) = sent (items l1) @ n2" "list_all (tokenItem (input l1)) n2"
    using b by (metis append_take_drop_id grown_def)
  have "input l1 = input l" "input l2 = input l" using a b by (simp_all add: grown_def)
  then show ?thesis
    using n1 n2 by (simp add: grown_def)
qed

lemma grown_keeps: "grown l l1 \<Longrightarrow> input l2 = input l1 \<Longrightarrow> items l2 = items l1 \<Longrightarrow> grown l l2"
  by (simp add: grown_def)

lemma grown_emit:
  "grown l l1 \<Longrightarrow> t \<noteq> itemError \<Longrightarrow> t \<noteq> itemEOF \<Longrightarrow> grown l (emit t l1)"
proof -
  assume a: "grown l l1" and t: "t \<noteq> itemError" "t \<noteq> itemEOF"
  have "grown l1 (emit t l1)"
    using t by (simp add: grown_def tokenItem_def sliceOK_slice)
  with a show ?thesis by (rule grown_trans)
qed

lemmas grown_method =
  grown_keeps [OF _ lexer_next_keeps]
  grown_keeps [OF _ backup_keeps]
  grown_keeps [OF _ backupMultiple_keeps]
  grown_keeps [OF _ accept_keeps]
  grown_keeps [OF _ acceptAlphaNumeric_keeps]
  grown_keeps [OF _ acceptRun_keeps]
  grown_keeps [OF _ acceptSpace_keeps]
  grown_keeps [OF _ acceptRune_keeps]
  grown_keeps [OF _ acceptString_keeps]
  grown_keeps [OF _ acceptIdentifier_keeps]
  grown_keeps [OF _ acceptKeyword_keeps]
  grown_keeps [OF _ ignore_keeps]

lemma stepOK_state: "grown l l1 \<Longrightarrow> stepOK l (st, l1)"
  by (simp add: stepOK_def)

lemma stepOK_errorf: "grown l l1 \<Longrightarrow> stepOK l (errorf l1 msg)"
  by (auto simp: stepOK_def errorf_def)

lemma stepOK_if:
  "(c \<Longrightarrow> stepOK l a) \<Longrightarrow> (\<not> c \<Longrightarrow> stepOK l b) \<Longrightarrow> stepOK l (if c then a else b)"
  by simp

lemma grown_if:
  "(c \<Longrightarrow> grown l a) \<Longrightarrow> (\<not> c \<Longrightarrow> grown l b) \<Longrightarrow> grown l (if c then a else b)"
  by simp

lemmas stepOK_intros =
  stepOK_if stepOK_state stepOK_errorf grown_if grown_emit grown_method grown_refl

lemma lexLineCommentFn_stepOK: "stepOK l (lexLineCommentFn l)"
  unfolding lexLineCommentFn_def Let_def split_beta
  by (intro stepOK_intros | simp)+

lemma lexEatLineFn_stepOK: "stepOK l (lexEatLineFn l)"
  unfolding lexEatLineFn_def Let_def split_beta
  by (intro stepOK_intros | simp)+

lemma lexBlockCommentFn_stepOK: "stepOK l (lexBlockCommentFn l)"
  unfolding lexBlockCommentFn_def Let_def split_beta
  by (intro stepOK_intros | simp)+

lemma lexRootFn_stepOK: "stepOK l (lexRootFn U l)"
  unfolding lexRootFn_def Let_def split_beta
  by (intro stepOK_intros | simp)+

lemma lexNamespaceFn_stepOK: "stepOK l (lexNamespaceFn U l)"
  unfolding lexNamespaceFn_def Let_def split_beta
  by (intro stepOK_intros | simp)+

lemma lexBlockFn_stepOK: "stepOK l (lexBlockFn U l)"
  unfolding lexBlockFn_def Let_def split_beta
  by (intro stepOK_intros | simp)+

lemma lexSymbolFn_stepOK: "lexSymbolFn l = Inr res \<Longrightarrow> stepOK l res"
proof -
  assume a: "lexSymbolFn l = Inr res"
  have g: "grown l (l\<lparr>pos := pos l + 1\<rparr>)"
    by (rule grown_keeps [OF grown_refl]) simp_all
  have "stepOK l (Some LexRootFn, emit t (l\<lparr>pos := pos l + 1\<rparr>))"
    if "t \<noteq> itemError" "t \<noteq> itemEOF" for t
    using that g by (intro stepOK_state grown_emit)
  moreover have "stepOK l (errorf l ''Unexpected input'')"
    by (intro stepOK_errorf grown_refl)
  ultimately show ?thesis
    using a by (auto simp: lexSymbolFn_def Let_def split: if_splits)
qed

lemma lexSpaceFn_loop_keeps:
  "lexSpaceFn_loop l = Inr l1 \<Longrightarrow> input l1 = input l \<and> items l1 = items l"
proof (induction l rule: lexSpaceFn_loop.induct)
  case (1 lx)
  show ?case
  proof (cases "length (input lx) \<le> pos lx")
    case True
    then show ?thesis
      using "1.prems" by (subst (asm) lexSpaceFn_loop.simps) simp
  next
    case False
    note inb = this
    show ?thesis
    proof (cases "IsSpace (int (byte (input lx ! pos lx))) \<and> \<not> lexer_eof lx")
      case True
      then have "lexSpaceFn_loop (lx\<lparr>pos := pos lx + 1\<rparr>) = Inr l1"
        using "1.prems" inb by (subst (asm) lexSpaceFn_loop.simps) simp
      then show ?thesis
        using "1.IH" [OF inb True] by simp
    next
      case False
      then have "l1 = lx"
        using "1.prems" inb by (subst (asm) lexSpaceFn_loop.simps) auto
      then show ?thesis by simp
    qed
  qed
qed

lemma lexSpaceFn_stepOK: "lexSpaceFn l = Inr res \<Longrightarrow> stepOK l res"
proof -
  assume a: "lexSpaceFn l = Inr res"
  then obtain l1 where l1: "lexSpaceFn_loop l = Inr l1" "res = (Some LexRootFn, ignore l1)"
    by (cases "lexSpaceFn_loop l") (auto simp: lexSpaceFn_def)
  have "grown l (ignore l1)"
    using lexSpaceFn_loop_keeps [OF l1(1)] by (intro grown_keeps [OF grown_refl]) simp_all
  then show ?thesis using l1(2) by (simp add: stepOK_state)
qed

lemma step_stepOK: "step U st l = Some (Inr res) \<Longrightarrow> stepOK l res"
  by (cases st)
     (auto simp: lexRootFn_stepOK lexNamespaceFn_stepOK lexBlockFn_stepOK
        lexLineCommentFn_stepOK lexEatLineFn_stepOK lexBlockCommentFn_stepOK
        lexSymbolFn_stepOK lexSpaceFn_stepOK)

lemma grown_close: "grown l l1 \<Longrightarrow> grown l (close l1)"
  by (simp add: grown_def close_def)

lemma outcomeOK_grown: "grown l l1 \<Longrightarrow> outcomeOK l1 out \<Longrightarrow> outcomeOK l out"
  by (auto simp: outcomeOK_def intro: grown_trans)

lemma runLoop_outcomeOK: "runLoop U fuel st l = Some out \<Longrightarrow> outcomeOK l out"
proof (induction fuel arbitrary: st l)
  case 0
  then show ?case by simp
next
  case (Suc fuel)
  show ?case
  proof (cases "step U st l")
    case None
    then have "out = Enters st l" using Suc.prems by simp
    then show ?thesis by (simp add: outcomeOK_def grown_refl)
  next
    case (Some r)
    show ?thesis
    proof (cases r)
      case (Inl p)
      then have "out = Panicked p l" using Suc.prems Some by simp
      then show ?thesis by (simp add: outcomeOK_def grown_refl)
    next
      case (Inr res)
      then have ok: "stepOK l res" using Some step_stepOK by blast
      obtain st1 l1 where res: "res = (st1, l1)" by (cases res)
      show ?thesis
      proof (cases st1)
        case None
        then have out: "out = Closed (close l1)" using Suc.prems Some Inr res by simp
        from ok res None have "grown l l1 \<or> (\<exists>l2 msg. grown l l2 \<and> l1 = snd (errorf l2 msg))"
          by (simp add: stepOK_def)
        then show ?thesis
          using out by (auto simp: outcomeOK_def grown_close)
      next
        case (Some st2)
        then have "runLoop U fuel st2 l1 = Some out"
          using Suc.prems \<open>step U st l = Some r\<close> Inr res by simp
        then have "outcomeOK l1 out" by (rule Suc.IH)
        moreover have "grown l l1" using ok res Some by (simp add: stepOK_def)
        ultimately show ?thesis by (rule outcomeOK_grown [rotated])
      qed
    qed
  qed
qed

lemma runLoop_closed: "runLoop U fuel st l = Some (Closed l1) \<Longrightarrow> closed (items l1)"
proof (induction fuel arbitrary: st l)
  case 0
  then show ?case by simp
next
  case (Suc fuel)
  then show ?case
    by (auto simp: close_def split: option.splits sum.splits)
qed

text \<open>
  A run from \<open>lex\<close>: the items delivered are token items, with an error item after them
  only when the run has ended and the channel is closed.
\<close>

lemma run_delivered:
  assumes "run U fuel (lexNew nm inp) = Some out"
  shows "\<exists>toks. list_all (tokenItem inp) toks \<and>
    (delivered out = toks \<or>
     (\<exists>e. delivered out = toks @ [e] \<and> item_typ e = itemError \<and>
        out = Closed (lexerOf out) \<and> closed (items (lexerOf out))))"
proof -
  have ok: "outcomeOK (lexNew nm inp) out"
    using assms runLoop_outcomeOK by (simp add: run_def)
  have e: "sent (items (lexNew nm inp)) = []" "input (lexNew nm inp) = inp"
    by (simp_all add: lexNew_def)
  from ok show ?thesis
    unfolding outcomeOK_def
  proof
    assume "grown (lexNew nm inp) (lexerOf out)"
    then have "list_all (tokenItem inp) (delivered out)"
      by (simp add: grown_def e delivered_def)
    then show ?thesis by blast
  next
    assume "\<exists>l1 msg. grown (lexNew nm inp) l1 \<and> out = Closed (close (snd (errorf l1 msg)))"
    then obtain l1 msg where g: "grown (lexNew nm inp) l1"
      and out: "out = Closed (close (snd (errorf l1 msg)))" by blast
    have "list_all (tokenItem inp) (sent (items l1))"
      using g by (simp add: grown_def e)
    moreover have "delivered out = sent (items l1) @
        [\<lparr>item_typ = itemError, item_pos = start l1, item_val = msg, item_line = startLine l1\<rparr>]"
      using out by (simp add: delivered_def close_def errorf_def send_def)
    moreover have "out = Closed (lexerOf out) \<and> closed (items (lexerOf out))"
      using out by (simp add: close_def)
    ultimately show ?thesis by auto
  qed
qed

text \<open>
  C8: every item sent by \<open>emit\<close> satisfies \<open>val == input[pos : pos+len(val)]\<close>: the item
  \<open>emit\<close> has just sent does, in every state of the lexer, and so does every item a run
  of the scanner delivers, but for an error item, which \<open>errorf\<close> sends with a message as
  its text.
\<close>

theorem C8_item_text_is_input_slice:
  "slice (input l) (item_pos (last (sent (items (emit t l)))))
      (item_pos (last (sent (items (emit t l)))) +
       length (item_val (last (sent (items (emit t l))))))
     = item_val (last (sent (items (emit t l)))) \<and>
   (run U fuel (lexNew nm inp) = Some out \<longrightarrow>
      (\<forall>it\<in>set (delivered out). item_typ it \<noteq> itemError \<longrightarrow>
         slice inp (item_pos it) (item_pos it + length (item_val it)) = item_val it))"
proof (intro conjI impI ballI)
  show "slice (input l) (item_pos (last (sent (items (emit t l)))))
      (item_pos (last (sent (items (emit t l)))) +
       length (item_val (last (sent (items (emit t l))))))
     = item_val (last (sent (items (emit t l))))"
    using sliceOK_slice [of "input l" t "start l" "pos l" "startLine l"]
    by (simp add: sliceOK_def)
next
  fix it
  assume r: "run U fuel (lexNew nm inp) = Some out" and it: "it \<in> set (delivered out)"
    and ne: "item_typ it \<noteq> itemError"
  from run_delivered [OF r] obtain toks where
    toks: "list_all (tokenItem inp) toks" and
    d: "delivered out = toks \<or> (\<exists>e. delivered out = toks @ [e] \<and> item_typ e = itemError \<and>
        out = Closed (lexerOf out) \<and> closed (items (lexerOf out)))"
    by blast
  have "it \<in> set toks" using d it ne by auto
  then have "tokenItem inp it" using toks by (simp add: list_all_iff)
  then show "slice inp (item_pos it) (item_pos it + length (item_val it)) = item_val it"
    by (simp add: tokenItem_def sliceOK_def)
qed

theorem C8_item_text_is_input_slice_witness:
  "delivered (the (run latin1Only 4 (lexNew ''f'' ''//namespace{.struct{''))) =
     [\<lparr>item_typ = itemNamespace, item_pos = 0, item_val = ''//namespace'', item_line = 1\<rparr>,
      \<lparr>item_typ = itemOpenBrace, item_pos = 11, item_val = ''{'', item_line = 1\<rparr>,
      \<lparr>item_typ = itemStruct, item_pos = 12, item_val = ''.struct'', item_line = 1\<rparr>,
      \<lparr>item_typ = itemOpenBrace, item_pos = 19, item_val = ''{'', item_line = 1\<rparr>] \<and>
   slice ''//namespace{.struct{'' 0 (0 + length ''//namespace'') = ''//namespace'' \<and>
   slice ''//namespace{.struct{'' 11 (11 + length ''{'') = ''{'' \<and>
   slice ''//namespace{.struct{'' 12 (12 + length ''.struct'') = ''.struct'' \<and>
   slice ''//namespace{.struct{'' 19 (19 + length ''{'') = ''{''"
proof -
  let ?out = "the (run latin1Only 4 (lexNew ''f'' ''//namespace{.struct{''))"
  have r: "run latin1Only 4 (lexNew ''f'' ''//namespace{.struct{'') = Some ?out"
    by code_simp
  have d: "delivered ?out =
     [\<lparr>item_typ = itemNamespace, item_pos = 0, item_val = ''//namespace'', item_line = 1\<rparr>,
      \<lparr>item_typ = itemOpenBrace, item_pos = 11, item_val = ''{'', item_line = 1\<rparr>,
      \<lparr>item_typ = itemStruct, item_pos = 12, item_val = ''.struct'', item_line = 1\<rparr>,
      \<lparr>item_typ = itemOpenBrace, item_pos = 19, item_val = ''{'', item_line = 1\<rparr>]"
    by code_simp
  have "\<forall>it\<in>set (delivered ?out). item_typ it \<noteq> itemError \<longrightarrow>
      slice ''//namespace{.struct{'' (item_pos it) (item_pos it + length (item_val it)) = item_val it"
    using C8_item_text_is_input_slice [of _ _ latin1Only 4 "''f''" "''//namespace{.struct{''" ?out] r
    by blast
  then show ?thesis
    unfolding d by simp
qed

lemma list_all_drop_nth:
  "list_all P (drop k xs) \<Longrightarrow> k \<le> i \<Longrightarrow> i < length xs \<Longrightarrow> P (xs ! i)"
proof -
  assume a: "list_all P (drop k xs)" and k: "k \<le> i" and i: "i < length xs"
  have "i - k < length (drop k xs)" using k i by simp
  then have "P (drop k xs ! (i - k))" using a by (simp add: list_all_length)
  moreover have "drop k xs ! (i - k) = xs ! i" using k i by simp
  ultimately show ?thesis by simp
qed

text \<open>
  C5: an error item is the last item delivered, and the channel is closed after it. For a
  finished run from \<open>lex\<close>: an error item among the items delivered is the last of them,
  and the run has ended with the channel closed. For one state function applied to any
  lexer: an error item among the items it sends is the last one, the function returns
  \<open>nil\<close>, and the loop of \<open>run\<close> ends there and closes the channel.
\<close>

theorem C5_error_item_is_last:
  "(run U fuel (lexNew nm inp) = Some out \<longrightarrow>
      (\<forall>i. i < length (delivered out) \<and> item_typ (delivered out ! i) = itemError \<longrightarrow>
         i = length (delivered out) - 1 \<and>
         out = Closed (lexerOf out) \<and> closed (items (lexerOf out)))) \<and>
   (step U st l = Some (Inr (st1, l1)) \<longrightarrow>
      (\<forall>i. length (sent (items l)) \<le> i \<and> i < length (sent (items l1)) \<and>
           item_typ (sent (items l1) ! i) = itemError \<longrightarrow>
         i = length (sent (items l1)) - 1 \<and> st1 = None \<and>
         runLoop U (Suc fuel) st l = Some (Closed (close l1))))"
proof (intro conjI impI allI)
  fix i
  assume r: "run U fuel (lexNew nm inp) = Some out"
    and i: "i < length (delivered out) \<and> item_typ (delivered out ! i) = itemError"
  from run_delivered [OF r] obtain toks where
    toks: "list_all (tokenItem inp) toks" and
    d: "delivered out = toks \<or> (\<exists>e. delivered out = toks @ [e] \<and> item_typ e = itemError \<and>
        out = Closed (lexerOf out) \<and> closed (items (lexerOf out)))"
    by blast
  have tk: "\<And>j. j < length toks \<Longrightarrow> item_typ (toks ! j) \<noteq> itemError"
    using toks by (simp add: list_all_length tokenItem_def)
  from d have "i = length (delivered out) - 1 \<and>
      out = Closed (lexerOf out) \<and> closed (items (lexerOf out))"
  proof
    assume "delivered out = toks"
    then show ?thesis using i tk by auto
  next
    assume "\<exists>e. delivered out = toks @ [e] \<and> item_typ e = itemError \<and>
        out = Closed (lexerOf out) \<and> closed (items (lexerOf out))"
    then obtain e where e: "delivered out = toks @ [e]"
      and c: "out = Closed (lexerOf out) \<and> closed (items (lexerOf out))" by blast
    have "\<not> i < length toks"
      using i tk [of i] e by (auto simp: nth_append)
    then have "i = length toks" using i e by simp
    then show ?thesis using e c by simp
  qed
  then show "i = length (delivered out) - 1" and "out = Closed (lexerOf out)"
    and "closed (items (lexerOf out))" by simp_all
next
  fix i
  assume s: "step U st l = Some (Inr (st1, l1))"
    and i: "length (sent (items l)) \<le> i \<and> i < length (sent (items l1)) \<and>
           item_typ (sent (items l1) ! i) = itemError"
  have ok: "stepOK l (st1, l1)" using s by (rule step_stepOK)
  have ng: "\<not> grown l l1"
  proof
    assume g: "grown l l1"
    then have "list_all (tokenItem (input l)) (drop (length (sent (items l))) (sent (items l1)))"
      by (simp add: grown_def)
    then have "tokenItem (input l) (sent (items l1) ! i)"
      using i list_all_drop_nth [of "tokenItem (input l)" "length (sent (items l))"
          "sent (items l1)" i] by simp
    then show False using i by (simp add: tokenItem_def)
  qed
  then obtain l2 msg where n: "st1 = None" and g2: "grown l l2" and l1: "l1 = snd (errorf l2 msg)"
    using ok by (auto simp: stepOK_def)
  have len: "length (sent (items l1)) = Suc (length (sent (items l2)))"
    using l1 by (simp add: errorf_def send_def)
  have "\<not> i < length (sent (items l2))"
  proof
    assume lt: "i < length (sent (items l2))"
    have "list_all (tokenItem (input l)) (drop (length (sent (items l))) (sent (items l2)))"
      using g2 by (simp add: grown_def)
    then have "tokenItem (input l) (sent (items l2) ! i)"
      using i lt list_all_drop_nth [of "tokenItem (input l)" "length (sent (items l))"
          "sent (items l2)" i] by simp
    then have "item_typ (sent (items l2) ! i) \<noteq> itemError" by (simp add: tokenItem_def)
    moreover have "sent (items l1) ! i = sent (items l2) ! i"
      using l1 lt by (simp add: errorf_def send_def nth_append)
    ultimately show False using i by simp
  qed
  then show "i = length (sent (items l1)) - 1" using i len by simp
  show "st1 = None" by (rule n)
  show "runLoop U (Suc fuel) st l = Some (Closed (close l1))"
    using s n by simp
qed

theorem C5_error_item_is_last_witness:
  "delivered (the (run latin1Only 4 (lexNew ''f'' ''//namespace{''))) =
     [\<lparr>item_typ = itemNamespace, item_pos = 0, item_val = ''//namespace'', item_line = 1\<rparr>,
      \<lparr>item_typ = itemOpenBrace, item_pos = 11, item_val = ''{'', item_line = 1\<rparr>,
      \<lparr>item_typ = itemError, item_pos = 12,
       item_val = ''Expected namespace, struct, class, or enum.'', item_line = 1\<rparr>] \<and>
   closed (items (lexerOf (the (run latin1Only 4 (lexNew ''f'' ''//namespace{'')))))"
proof -
  let ?out = "the (run latin1Only 4 (lexNew ''f'' ''//namespace{''))"
  have r: "run latin1Only 4 (lexNew ''f'' ''//namespace{'') = Some ?out"
    by code_simp
  have d: "delivered ?out =
     [\<lparr>item_typ = itemNamespace, item_pos = 0, item_val = ''//namespace'', item_line = 1\<rparr>,
      \<lparr>item_typ = itemOpenBrace, item_pos = 11, item_val = ''{'', item_line = 1\<rparr>,
      \<lparr>item_typ = itemError, item_pos = 12,
       item_val = ''Expected namespace, struct, class, or enum.'', item_line = 1\<rparr>]"
    by code_simp
  have "2 < length (delivered ?out) \<and> item_typ (delivered ?out ! 2) = itemError"
    unfolding d by simp
  then have "closed (items (lexerOf ?out))"
    using C5_error_item_is_last [of latin1Only 4 "''f''" "''//namespace{''" ?out] r by blast
  then show ?thesis using d by simp
qed

text \<open>
  C4, as the code has it: when scanning completes, the scanner has closed the channel and
  no item it has sent is an end-of-input item. No state function of the source sends
  \<open>itemEOF\<close>; the end of the input is signalled by closing the channel.
\<close>

theorem C4_no_EOF_item:
  assumes "run U fuel (lexNew nm inp) = Some (Closed l1)"
  shows "closed (items l1) \<and> (\<forall>it\<in>set (sent (items l1)). item_typ it \<noteq> itemEOF)"
proof
  show "closed (items l1)"
    using assms runLoop_closed by (simp add: run_def)
  from run_delivered [OF assms] obtain toks where
    toks: "list_all (tokenItem inp) toks" and
    d: "delivered (Closed l1) = toks \<or> (\<exists>e. delivered (Closed l1) = toks @ [e] \<and> item_typ e = itemError \<and>
        Closed l1 = Closed (lexerOf (Closed l1)) \<and> closed (items (lexerOf (Closed l1))))"
    by blast
  have "\<forall>it\<in>set toks. item_typ it \<noteq> itemEOF"
    using toks by (simp add: list_all_iff tokenItem_def)
  then show "\<forall>it\<in>set (sent (items l1)). item_typ it \<noteq> itemEOF"
    using d by (auto simp: delivered_def)
qed

theorem C4_no_EOF_item_witness:
  "run latin1Only 2 (lexNew ''f'' [CHR '' '', CHR 0x0A]) =
     Some (Closed ((lexNew ''f'' [CHR '' '', CHR 0x0A])
       \<lparr>items := \<lparr>sent = [], closed = True\<rparr>, line := 2, pos := 2, atEOF := True\<rparr>)) \<and>
   closed (items ((lexNew ''f'' [CHR '' '', CHR 0x0A])
       \<lparr>items := \<lparr>sent = [], closed = True\<rparr>, line := 2, pos := 2, atEOF := True\<rparr>))"
proof -
  have r: "run latin1Only 2 (lexNew ''f'' [CHR '' '', CHR 0x0A]) =
     Some (Closed ((lexNew ''f'' [CHR '' '', CHR 0x0A])
       \<lparr>items := \<lparr>sent = [], closed = True\<rparr>, line := 2, pos := 2, atEOF := True\<rparr>))"
    by code_simp
  show ?thesis
    using C4_no_EOF_item [OF r] r by simp
qed

text \<open>
  C4 as stated fails on the empty input: the run completes without an error and delivers no
  item at all, so no last item is an end-of-input item.
\<close>

theorem C4_counterexample:
  "run latin1Only 1 (lexNew ''f'' '''') = Some (Closed (close (lexNew ''f'' ''''))) \<and>
   delivered (Closed (close (lexNew ''f'' ''''))) = []"
  by code_simp

section \<open>Every state of a run is well placed\<close>

text \<open>
  The hypothesis \<open>wellPlaced\<close> of the theorems on \<open>backup\<close> and \<open>acceptKeyword\<close> holds
  in every state a run goes through: \<open>lex\<close> starts in such a state, and every method and
  every state function of the source keeps it. The two state functions that move \<open>pos\<close>
  by hand step over one byte that is a rune of its own.
\<close>

lemma wellPlaced_backupMultiple: "wellPlaced l \<Longrightarrow> wellPlaced (backupMultiple n l)"
  by (induction n arbitrary: l) (simp_all add: wellPlaced_backup)

lemma wellPlaced_accept: "wellPlaced l \<Longrightarrow> wellPlaced (snd (accept valid l))"
  by (simp add: accept_def split_beta wellPlaced_lexer_next wellPlaced_backup)

lemma wellPlaced_acceptAlphaNumeric:
  "wellPlaced l \<Longrightarrow> wellPlaced (snd (acceptAlphaNumeric U l))"
  by (simp add: acceptAlphaNumeric_def split_beta wellPlaced_lexer_next wellPlaced_backup)

lemma wellPlaced_acceptRun_loop: "wellPlaced l \<Longrightarrow> wellPlaced (acceptRun_loop valid l)"
proof (induction valid l rule: acceptRun_loop.induct)
  case (1 valid l)
  show ?case
  proof (cases "ContainsRune valid (fst (lexer_next l))")
    case True
    then have "acceptRun_loop valid l = acceptRun_loop valid (snd (lexer_next l))"
      by (subst acceptRun_loop.simps) simp
    then show ?thesis
      using "1.IH" [OF True] "1.prems" by (simp add: wellPlaced_lexer_next)
  next
    case False
    then have "acceptRun_loop valid l = snd (lexer_next l)"
      by (subst acceptRun_loop.simps) simp
    then show ?thesis using "1.prems" by (simp add: wellPlaced_lexer_next)
  qed
qed

lemma wellPlaced_acceptRun: "wellPlaced l \<Longrightarrow> wellPlaced (acceptRun valid l)"
  by (simp add: acceptRun_def wellPlaced_acceptRun_loop wellPlaced_backup)

lemma wellPlaced_acceptSpace: "wellPlaced l \<Longrightarrow> wellPlaced (snd (acceptSpace l))"
  by (simp add: acceptSpace_def wellPlaced_accept)

lemma wellPlaced_acceptRune: "wellPlaced l \<Longrightarrow> wellPlaced (snd (acceptRune r l))"
  by (simp add: acceptRune_def split_beta wellPlaced_lexer_next wellPlaced_backup)

lemma wellPlaced_acceptString_loop:
  "wellPlaced l \<Longrightarrow> wellPlaced (snd (acceptString_loop ics l))"
  by (induction ics arbitrary: l)
     (auto simp: split_beta wellPlaced_lexer_next wellPlaced_backupMultiple)

lemma wellPlaced_acceptString: "wellPlaced l \<Longrightarrow> wellPlaced (snd (acceptString k l))"
  by (simp add: acceptString_def wellPlaced_acceptString_loop)

lemma wellPlaced_acceptIdentifier_loop:
  "wellPlaced l \<Longrightarrow> wellPlaced (acceptIdentifier_loop U l)"
proof (induction U l rule: acceptIdentifier_loop.induct)
  case (1 U l)
  show ?case
  proof (cases "isAlphaNumeric U (fst (lexer_next l))")
    case True
    then have "acceptIdentifier_loop U l = acceptIdentifier_loop U (snd (lexer_next l))"
      by (subst acceptIdentifier_loop.simps) simp
    then show ?thesis
      using "1.IH" [OF True] "1.prems" by (simp add: wellPlaced_lexer_next)
  next
    case False
    then have "acceptIdentifier_loop U l = snd (lexer_next l)"
      by (subst acceptIdentifier_loop.simps) simp
    then show ?thesis using "1.prems" by (simp add: wellPlaced_lexer_next)
  qed
qed

lemma wellPlaced_acceptIdentifier: "wellPlaced l \<Longrightarrow> wellPlaced (snd (acceptIdentifier U l))"
  by (simp add: acceptIdentifier_def split_beta wellPlaced_lexer_next wellPlaced_backup
      wellPlaced_acceptIdentifier_loop)

lemma wellPlaced_acceptKeyword: "wellPlaced l \<Longrightarrow> wellPlaced (snd (acceptKeyword U k l))"
  by (simp add: acceptKeyword_def split_beta Let_def wellPlaced_acceptString
      wellPlaced_acceptAlphaNumeric wellPlaced_backupMultiple)

lemma wellPlaced_emit: "wellPlaced l \<Longrightarrow> wellPlaced (emit t l)"
  by (simp add: wellPlaced_def emit_def send_def)

lemma wellPlaced_errorf: "wellPlaced l \<Longrightarrow> wellPlaced (snd (errorf l msg))"
  by (simp add: wellPlaced_def errorf_def send_def)

lemma wellPlaced_ignore: "wellPlaced l \<Longrightarrow> wellPlaced (ignore l)"
  by (simp add: wellPlaced_def ignore_def Let_def)

lemma wellPlaced_if:
  "(c \<Longrightarrow> wellPlaced (snd a)) \<Longrightarrow> (\<not> c \<Longrightarrow> wellPlaced (snd b)) \<Longrightarrow>
     wellPlaced (snd (if c then a else b))"
  by simp

lemma wellPlaced_if':
  "(c \<Longrightarrow> wellPlaced a) \<Longrightarrow> (\<not> c \<Longrightarrow> wellPlaced b) \<Longrightarrow> wellPlaced (if c then a else b)"
  by simp

lemma wellPlaced_pair: "wellPlaced l \<Longrightarrow> wellPlaced (snd (st, l))"
  by simp

lemmas wellPlaced_intros =
  wellPlaced_if wellPlaced_if' wellPlaced_pair wellPlaced_errorf wellPlaced_emit wellPlaced_ignore
  wellPlaced_acceptKeyword wellPlaced_acceptIdentifier wellPlaced_acceptString
  wellPlaced_acceptRune wellPlaced_acceptSpace wellPlaced_acceptRun wellPlaced_accept
  wellPlaced_acceptAlphaNumeric wellPlaced_backupMultiple wellPlaced_backup
  wellPlaced_lexer_next

lemma wellPlaced_lexLineCommentFn: "wellPlaced l \<Longrightarrow> wellPlaced (snd (lexLineCommentFn l))"
  unfolding lexLineCommentFn_def Let_def split_beta
  by (intro wellPlaced_intros | assumption)+

lemma wellPlaced_lexEatLineFn: "wellPlaced l \<Longrightarrow> wellPlaced (snd (lexEatLineFn l))"
  unfolding lexEatLineFn_def Let_def split_beta
  by (intro wellPlaced_intros | assumption)+

lemma wellPlaced_lexBlockCommentFn: "wellPlaced l \<Longrightarrow> wellPlaced (snd (lexBlockCommentFn l))"
  unfolding lexBlockCommentFn_def Let_def split_beta
  by (intro wellPlaced_intros | assumption)+

lemma wellPlaced_lexRootFn: "wellPlaced l \<Longrightarrow> wellPlaced (snd (lexRootFn U l))"
  unfolding lexRootFn_def Let_def split_beta
  by (intro wellPlaced_intros | assumption)+

lemma wellPlaced_lexNamespaceFn: "wellPlaced l \<Longrightarrow> wellPlaced (snd (lexNamespaceFn U l))"
  unfolding lexNamespaceFn_def Let_def split_beta
  by (intro wellPlaced_intros | assumption)+

lemma wellPlaced_lexBlockFn: "wellPlaced l \<Longrightarrow> wellPlaced (snd (lexBlockFn U l))"
  unfolding lexBlockFn_def Let_def split_beta
  by (intro wellPlaced_intros | assumption)+


lemma wellPlaced_advance_byte:
  assumes wp: "wellPlaced l" and lt: "pos l < length (input l)"
    and w: "snd (DecodeRuneInString (drop (pos l) (input l))) = 1"
  shows "wellPlaced (l\<lparr>pos := pos l + 1\<rparr>)"
proof -
  have "runeBoundary (input l) (pos l)" using wp by (simp add: wellPlaced_def)
  then have "runeBoundary (input l) (pos l + 1)"
    using boundary_step [of "input l" "pos l"] lt w by simp
  moreover have "\<not> atEOF l" using wp lt by (auto simp: wellPlaced_def)
  ultimately show ?thesis by (simp add: wellPlaced_def)
qed

lemma decode_space_byte:
  assumes "s \<noteq> []" and "IsSpace (int (byte (s ! 0)))"
  shows "snd (DecodeRuneInString s) = 1"
proof (cases "byte (s ! 0) < 0x80")
  case True
  then show ?thesis using decode_ascii [OF assms(1)] by simp
next
  case False
  then have "byte (s ! 0) = 0x85 \<or> byte (s ! 0) = 0xA0"
    using assms(2) by (auto simp: IsSpace_def)
  then have "invalidLead (byte (s ! 0))" by (auto simp: invalidLead_def)
  then show ?thesis
    using assms(1) False by (simp add: DecodeRuneInString_def Let_def)
qed

lemma wellPlaced_lexSymbolFn:
  assumes "lexSymbolFn l = Inr res" and wp: "wellPlaced l"
  shows "wellPlaced (snd res)"
proof -
  have lt: "pos l < length (input l)"
    using assms(1) by (cases "pos l < length (input l)") (simp_all add: lexSymbolFn_def)
  have adv: "wellPlaced (l\<lparr>pos := pos l + 1\<rparr>)" if "byte (input l ! pos l) < 0x80"
  proof (rule wellPlaced_advance_byte [OF wp lt])
    show "snd (DecodeRuneInString (drop (pos l) (input l))) = 1"
      using decode_ascii [of "drop (pos l) (input l)"] lt that by simp
  qed
  show ?thesis
    using assms(1) lt adv wp
    by (auto simp: lexSymbolFn_def Let_def wellPlaced_emit wellPlaced_errorf split: if_splits)
qed

lemma wellPlaced_lexSpaceFn_loop:
  "lexSpaceFn_loop l = Inr l1 \<Longrightarrow> wellPlaced l \<Longrightarrow> wellPlaced l1"
proof (induction l rule: lexSpaceFn_loop.induct)
  case (1 lx)
  show ?case
  proof (cases "length (input lx) \<le> pos lx")
    case True
    then show ?thesis
      using "1.prems" by (subst (asm) lexSpaceFn_loop.simps) simp
  next
    case False
    note inb = this
    show ?thesis
    proof (cases "IsSpace (int (byte (input lx ! pos lx))) \<and> \<not> lexer_eof lx")
      case True
      then have r: "lexSpaceFn_loop (lx\<lparr>pos := pos lx + 1\<rparr>) = Inr l1"
        using "1.prems" inb by (subst (asm) lexSpaceFn_loop.simps) simp
      have "snd (DecodeRuneInString (drop (pos lx) (input lx))) = 1"
        using decode_space_byte [of "drop (pos lx) (input lx)"] inb True by simp
      then have "wellPlaced (lx\<lparr>pos := pos lx + 1\<rparr>)"
        using wellPlaced_advance_byte [OF "1.prems"(2)] inb by simp
      then show ?thesis
        using "1.IH" [OF inb True r] by simp
    next
      case False
      then have "l1 = lx"
        using "1.prems" inb by (subst (asm) lexSpaceFn_loop.simps) auto
      then show ?thesis using "1.prems" by simp
    qed
  qed
qed

lemma wellPlaced_lexSpaceFn:
  assumes "lexSpaceFn l = Inr res" and wp: "wellPlaced l"
  shows "wellPlaced (snd res)"
proof -
  obtain l1 where l1: "lexSpaceFn_loop l = Inr l1" "res = (Some LexRootFn, ignore l1)"
    using assms(1) by (cases "lexSpaceFn_loop l") (auto simp: lexSpaceFn_def)
  show ?thesis
    using wellPlaced_lexSpaceFn_loop [OF l1(1) wp] l1(2) by (simp add: wellPlaced_ignore)
qed

text \<open>Every state function keeps the lexer well placed, and so does the whole run.\<close>

lemma wellPlaced_step:
  "step U st l = Some (Inr res) \<Longrightarrow> wellPlaced l \<Longrightarrow> wellPlaced (snd res)"
  by (cases st)
     (auto simp: wellPlaced_lexRootFn wellPlaced_lexNamespaceFn wellPlaced_lexBlockFn
        wellPlaced_lexLineCommentFn wellPlaced_lexEatLineFn wellPlaced_lexBlockCommentFn
        wellPlaced_lexSymbolFn wellPlaced_lexSpaceFn)

lemma wellPlaced_runLoop:
  "runLoop U fuel st l = Some out \<Longrightarrow> wellPlaced l \<Longrightarrow> wellPlaced (lexerOf out)"
proof (induction fuel arbitrary: st l)
  case 0
  then show ?case by simp
next
  case (Suc fuel)
  show ?case
  proof (cases "step U st l")
    case None
    then show ?thesis using Suc.prems by auto
  next
    case (Some r)
    show ?thesis
    proof (cases r)
      case (Inl p)
      then show ?thesis using Suc.prems Some by auto
    next
      case (Inr res)
      then have wp: "wellPlaced (snd res)"
        using Some Suc.prems(2) wellPlaced_step by blast
      obtain st1 l1 where res: "res = (st1, l1)" by (cases res)
      show ?thesis
      proof (cases st1)
        case None
        then have "out = Closed (close l1)" using Suc.prems(1) Some Inr res by simp
        then show ?thesis using wp res by (simp add: wellPlaced_def close_def)
      next
        case (Some st2)
        then have "runLoop U fuel st2 l1 = Some out"
          using Suc.prems(1) \<open>step U st l = Some r\<close> Inr res by simp
        then show ?thesis using Suc.IH wp res by simp
      qed
    qed
  qed
qed

section \<open>Runs of the scanner on concrete inputs\<close>

text \<open>
  A failed \<open>acceptString\<close> does not put the lexer back where it was: on a mismatch at
  the rune with byte index \<open>i\<close> it has read \<open>i + 1\<close> runes and backs up \<open>i\<close>. The
  theorems of this section run the scanner on inputs where this shows.
\<close>

lemma blockComment_stuck:
  "runLoop U fuel LexBlockCommentFn ((lexNew nm ''/* a */'')\<lparr>pos := 2\<rparr>) = None"
proof (induction fuel)
  case 0
  show ?case by simp
next
  case (Suc fuel)
  have "step U LexBlockCommentFn ((lexNew nm ''/* a */'')\<lparr>pos := 2\<rparr>)
      = Some (Inr (Some LexBlockCommentFn, (lexNew nm ''/* a */'')\<lparr>pos := 2\<rparr>))"
    by code_simp
  with Suc show ?case by simp
qed

text \<open>
  C1: an input that is the keyword \<open>namespace\<close>, with or without whitespace or a block
  comment before it, should give an \<open>itemNamespace\<close> item first. The scanner gives an
  error item instead: the two failed calls of \<open>acceptString\<close> in \<open>lexRootFn\<close> have
  each consumed a rune before \<open>acceptKeyword\<close> looks for the keyword.
\<close>

theorem C1_namespace_not_recognised:
  "map_option delivered (run latin1Only 1 (lexNew ''f'' ''namespace{'')) =
     Some [\<lparr>item_typ = itemError, item_pos = 0, item_val = ''Expected namespace'',
            item_line = 1\<rparr>] \<and>
   map_option delivered (run latin1Only 2 (lexNew ''f'' '' namespace{'')) =
     Some [\<lparr>item_typ = itemError, item_pos = 0, item_val = ''Expected namespace'',
            item_line = 1\<rparr>] \<and>
   map_option delivered (run latin1Only 3 (lexNew ''f'' ''/**/namespace{'')) =
     Some [\<lparr>item_typ = itemError, item_pos = 0, item_val = ''Expected namespace'',
            item_line = 1\<rparr>]"
  by code_simp

text \<open>
  C2: the loop of \<open>run\<close> should end on every input. On the block comment \<open>/* a */\<close> it
  does not: \<open>lexBlockCommentFn\<close> reads the space, backs up over it and returns itself,
  so the lexer never changes and no amount of fuel suffices.
\<close>

theorem C2_block_comment_never_ends: "run U fuel (lexNew nm ''/* a */'') = None"
proof (cases fuel)
  case 0
  then show ?thesis by (simp add: run_def)
next
  case (Suc n)
  have "step U LexRootFn (lexNew nm ''/* a */'')
      = Some (Inr (Some LexBlockCommentFn, (lexNew nm ''/* a */'')\<lparr>pos := 2\<rparr>))"
    by code_simp
  with Suc show ?thesis by (simp add: run_def blockComment_stuck)
qed

text \<open>
  C3: the text of a keyword item should be the keyword and its line the line the keyword
  starts on. \<open>lexRootFn\<close> never moves \<open>start\<close> and \<open>startLine\<close> past what it skips, so
  the first item starts at byte 0 on line 1 whatever precedes the keyword: here the
  keyword is on line 2 and the item's text holds the line before it.
\<close>

theorem C3_item_holds_skipped_text:
  "map_option (\<lambda>out. hd (delivered out))
       (run latin1Only 4 (lexNew ''f'' ''\<newline>//namespace{'')) =
     Some \<lparr>item_typ = itemNamespace, item_pos = 0, item_val = ''\<newline>//namespace'',
           item_line = 1\<rparr> \<and>
   map_option (\<lambda>out. hd (delivered out))
       (run latin1Only 3 (lexNew ''f'' ''#\<newline>namespace{'')) =
     Some \<lparr>item_typ = itemNamespace, item_pos = 0, item_val = ''#\<newline>namespace'',
           item_line = 1\<rparr>"
  by code_simp

text \<open>
  C6: in a block body an anonymous struct, \<open>struct{\<close>, should be accepted. The scanner
  answers with an error item: \<open>lexBlockFn\<close> looks for \<open>struct\<close> after a failed
  \<open>acceptKeyword\<close> for \<open>namespace\<close>, which has consumed the \<open>s\<close>.
\<close>

theorem C6_anonymous_struct_rejected:
  "map_option delivered (run latin1Only 3 (lexNew ''f'' ''//namespace{struct{'')) =
     Some [\<lparr>item_typ = itemNamespace, item_pos = 0, item_val = ''//namespace'',
            item_line = 1\<rparr>,
           \<lparr>item_typ = itemOpenBrace, item_pos = 11, item_val = ''{'', item_line = 1\<rparr>,
           \<lparr>item_typ = itemError, item_pos = 12,
            item_val = ''Expected namespace, struct, class, or enum.'', item_line = 1\<rparr>]"
  by code_simp

end
